theory Spec2Isabelle
  imports Complex_Main "HOL-Library.Word" "HOL-Library.Signed_Division"
begin

section \<open>Double-precision values\<close>

text \<open>
  The program computes with C++ \<open>double\<close>. The statistics are initialised with \<open>NAN\<close> and
  the rates divide by a sample count that may be zero, so the special values are part of the
  model: a \<open>double\<close> is a finite value, one of the two infinities, or NaN. Finite values are
  idealised as reals (rounding, overflow to infinity and the sign of zero are not modelled;
  a zero divisor is the positive zero that a converted \<open>size_t\<close> gives).
\<close>

datatype double = Fin real | PInf | NInf | NaN

fun dneg :: "double \<Rightarrow> double" where
  "dneg (Fin a) = Fin (- a)"
| "dneg PInf = NInf"
| "dneg NInf = PInf"
| "dneg NaN = NaN"

fun dadd :: "double \<Rightarrow> double \<Rightarrow> double" where
  "dadd NaN y = NaN"
| "dadd x NaN = NaN"
| "dadd (Fin a) (Fin b) = Fin (a + b)"
| "dadd PInf NInf = NaN"
| "dadd NInf PInf = NaN"
| "dadd PInf y = PInf"
| "dadd x PInf = PInf"
| "dadd NInf y = NInf"
| "dadd x NInf = NInf"

definition dsub :: "double \<Rightarrow> double \<Rightarrow> double" where
  "dsub x y = dadd x (dneg y)"

fun dpositive :: "double \<Rightarrow> bool" where
  "dpositive (Fin a) = (0 < a)"
| "dpositive PInf = True"
| "dpositive NInf = False"
| "dpositive NaN = False"

fun dmul :: "double \<Rightarrow> double \<Rightarrow> double" where
  "dmul NaN y = NaN"
| "dmul x NaN = NaN"
| "dmul (Fin a) (Fin b) = Fin (a * b)"
| "dmul x y = (if x = Fin 0 \<or> y = Fin 0 then NaN
               else if dpositive x = dpositive y then PInf else NInf)"

fun ddiv :: "double \<Rightarrow> double \<Rightarrow> double" where
  "ddiv NaN y = NaN"
| "ddiv x NaN = NaN"
| "ddiv (Fin a) (Fin b) =
     (if b \<noteq> 0 then Fin (a / b)
      else if a = 0 then NaN
      else if 0 < a then PInf else NInf)"
| "ddiv (Fin a) y = Fin 0"
| "ddiv x (Fin b) = (if dpositive x = (0 \<le> b) then PInf else NInf)"
| "ddiv x y = NaN"

fun dless :: "double \<Rightarrow> double \<Rightarrow> bool" where
  "dless NaN y = False"
| "dless x NaN = False"
| "dless (Fin a) (Fin b) = (a < b)"
| "dless NInf NInf = False"
| "dless NInf y = True"
| "dless PInf y = False"
| "dless (Fin a) PInf = True"
| "dless (Fin a) NInf = False"

fun deq :: "double \<Rightarrow> double \<Rightarrow> bool" where
  "deq NaN y = False"
| "deq x NaN = False"
| "deq x y = (x = y)"

text \<open>\<open>std::max(a, b)\<close> is \<open>(a < b) ? b : a\<close>.\<close>

definition dmax :: "double \<Rightarrow> double \<Rightarrow> double" where
  "dmax a b = (if dless a b then b else a)"

section \<open>Order statistics: \<open>median\<close>, \<open>quartiles\<close>, \<open>percentiles\<close>, \<open>average\<close>\<close>

text \<open>
  A latency sample is the difference of two clock readings, a finite double: the sample
  vector is a \<open>real list\<close>. An iterator into the vector is its offset from \<open>a.begin()\<close>,
  an \<open>int\<close>. Dereferencing an iterator that does not point at an element of the vector is
  undefined behaviour in C++; the model makes it the value \<open>None\<close>. Vector sizes are taken
  to fit the 32-bit \<open>int\<close> that \<open>median\<close> stores the slice length in.
\<close>

definition deref :: "real list \<Rightarrow> int \<Rightarrow> real option" where
  "deref a i = (if 0 \<le> i \<and> i < int (length a) then Some (a ! nat i) else None)"

text \<open>
  \<open>median(begin, end)\<close>: \<open>/\<close> and \<open>%\<close> on \<open>int\<close> truncate towards zero in C++
  (\<open>sdiv\<close>, \<open>smod\<close>).
\<close>

definition median :: "real list \<Rightarrow> int \<Rightarrow> int \<Rightarrow> real option" where
  "median a begin_it end_it =
     (let n = end_it - begin_it in
      if (n - 1) smod 2 = 0 then deref a (begin_it + (n - 1) sdiv 2)
      else (case deref a (begin_it + (n - 1) sdiv 2) of
              None \<Rightarrow> None
            | Some x \<Rightarrow>
                (case deref a (begin_it + (n - 1) sdiv 2 + 1) of
                   None \<Rightarrow> None
                 | Some y \<Rightarrow> Some ((x + y) / 2))))"

text \<open>
  \<open>quartiles(a)\<close> sorts its argument in place and returns five values (minimum, first
  quartile, median, third quartile, maximum); the model returns the sorted vector with them.
\<close>

definition quartiles :: "real list \<Rightarrow> (real list \<times> double list) option" where
  "quartiles a =
     (let ret = [NaN, NaN, NaN, NaN, NaN]; n = length a in
      if n < 1 then Some (a, ret)
      else
        let a = sort a;
            ret = ret[0 := Fin (a ! 0)];
            ret = ret[4 := Fin (a ! (n - 1))]
        in case median a 0 (int n) of
             None \<Rightarrow> None
           | Some m \<Rightarrow>
               (case median a 0 (0 + int (n div 2)) of
                  None \<Rightarrow> None
                | Some q1 \<Rightarrow>
                    (case median a (0 + int (n div 2)) (int n) of
                       None \<Rightarrow> None
                     | Some q3 \<Rightarrow>
                         Some (a, ret[2 := Fin m, 1 := Fin q1, 3 := Fin q3]))))"

definition percentiles :: "real list \<Rightarrow> (real list \<times> double list) option" where
  "percentiles a =
     (let ret = [NaN, NaN]; n = length a in
      if n < 1 then Some (a, ret)
      else
        let a = sort a
        in case median a (0 + int (90 * n div 100)) (int n) of
             None \<Rightarrow> None
           | Some p0 \<Rightarrow>
               (case median a (0 + int (98 * n div 100)) (int n) of
                  None \<Rightarrow> None
                | Some p1 \<Rightarrow> Some (a, ret[0 := Fin p0, 1 := Fin p1])))"

text \<open>\<open>average(a)\<close>: \<open>std::accumulate\<close> from \<open>0.0\<close>, divided by the size.\<close>

definition average :: "real list \<Rightarrow> double" where
  "average a = ddiv (Fin (foldl (+) 0 a)) (Fin (real (length a)))"

text \<open>
  The median as the specification words it: the mean of the two middle elements of an
  even-length slice, the single middle element of an odd-length one.
\<close>

definition median_spec :: "real list \<Rightarrow> real" where
  "median_spec xs =
     (if even (length xs)
      then (xs ! (length xs div 2 - 1) + xs ! (length xs div 2)) / 2
      else xs ! (length xs div 2))"

section \<open>The shared control structure\<close>

text \<open>
  \<open>HttpClientControl\<close>. The \<open>uint32_t\<close> counters and the two atomics are 32-bit words
  (\<open>numRequestsLeft\<close> is an \<open>atomic<int>\<close>, read with \<open>sint\<close>); the mutex is not a field
  of the model, the blocks it guards are single functions. The field \<open>open\<close> is named
  \<open>open_flag\<close> here. \<open>timeout\<close> and \<open>concurrency\<close> hold values of C \<open>int\<close>.
\<close>

record HttpClientControl =
  url :: string
  timeout :: int
  thinkTime :: double
  running :: bool
  numErrors :: "32 word"
  numOptionalStuff1 :: "32 word"
  numOptionalStuff2 :: "32 word"
  latencies :: "real list"
  concurrency :: int
  open_flag :: bool
  numOpenQueuing :: "32 word"
  numRequestsLeft :: "32 word"

definition OPTIONAL_STUFF1 :: "32 word" where
  "OPTIONAL_STUFF1 = 0x01"

definition OPTIONAL_STUFF2 :: "32 word" where
  "OPTIONAL_STUFF2 = 0x02"

text \<open>The control structure as \<open>main\<close> sets it up before it starts the client threads.\<close>

definition main_control ::
  "string \<Rightarrow> int \<Rightarrow> int \<Rightarrow> double \<Rightarrow> bool \<Rightarrow> int \<Rightarrow> HttpClientControl" where
  "main_control url_arg concurrency_arg timeout_arg thinkTime_arg open_arg numRequestsLeft_arg =
     \<lparr> url = url_arg, timeout = timeout_arg, thinkTime = thinkTime_arg, running = True,
       numErrors = 0, numOptionalStuff1 = 0, numOptionalStuff2 = 0, latencies = [],
       concurrency = concurrency_arg, open_flag = open_arg, numOpenQueuing = 0,
       numRequestsLeft = word_of_int numRequestsLeft_arg \<rparr>"

section \<open>The worker: \<open>httpClientMain\<close>\<close>

text \<open>
  The loop guard \<open>--control.numRequestsLeft >= 0\<close>: an atomic pre-decrement, then the test
  of the new value.
\<close>

definition budget_decrement :: "HttpClientControl \<Rightarrow> HttpClientControl \<times> bool" where
  "budget_decrement control =
     (let control = control\<lparr>numRequestsLeft := numRequestsLeft control - 1\<rparr>
      in (control, 0 \<le> sint (numRequestsLeft control)))"

text \<open>
  What one iteration takes from outside the program: the interval drawn from the
  exponential distribution, the clock reading of line 162, the value \<open>sigtimedwait\<close>
  returns (positive when the master thread's signal arrived), and the outcome of the
  request (failure flag, marker bits set by the write callback, measured latency).
\<close>

record iter_env =
  sampled_interval :: double
  now_reading :: real
  signo :: int
  request_error :: bool
  request_optionalStuff :: "32 word"
  request_latency :: real

text \<open>
  The think-time block (lines 154 to 173). It returns the control structure, the worker's
  \<open>lastArrivalTime\<close>, the interval handed to \<open>sigtimedwait\<close> (\<open>None\<close> when the block is
  skipped and the worker does not wait) and whether the loop is left by \<open>break\<close>.
\<close>

definition think_time ::
  "iter_env \<Rightarrow> HttpClientControl \<Rightarrow> double \<Rightarrow> HttpClientControl \<times> double \<times> double option \<times> bool" where
  "think_time env control lastArrivalTime =
     (if dless (Fin 0) (thinkTime control) then
        let interval = sampled_interval env
        in if open_flag control then
             let nextArrivalTime = dadd lastArrivalTime interval;
                 interval = dmax (dsub nextArrivalTime (Fin (now_reading env))) (Fin 0);
                 control = (if deq interval (Fin 0)
                            then control\<lparr>numOpenQueuing := numOpenQueuing control + 1\<rparr>
                            else control);
                 lastArrivalTime = nextArrivalTime
             in (control, lastArrivalTime, Some interval, 0 < signo env)
           else (control, lastArrivalTime, Some interval, 0 < signo env)
      else (control, lastArrivalTime, None, False))"

text \<open>The block under the lock that adds one result to the report data (lines 184 to 193).\<close>

definition record_result :: "bool \<Rightarrow> 32 word \<Rightarrow> real \<Rightarrow> HttpClientControl \<Rightarrow> HttpClientControl" where
  "record_result error optionalStuff lastLatency control =
     (let control = (if error then control\<lparr>numErrors := numErrors control + 1\<rparr> else control);
          control = (if and optionalStuff OPTIONAL_STUFF1 \<noteq> 0
                     then control\<lparr>numOptionalStuff1 := numOptionalStuff1 control + 1\<rparr>
                     else control);
          control = (if and optionalStuff OPTIONAL_STUFF2 \<noteq> 0
                     then control\<lparr>numOptionalStuff2 := numOptionalStuff2 control + 1\<rparr>
                     else control)
      in control\<lparr>latencies := latencies control @ [lastLatency]\<rparr>)"

section \<open>The reporter: \<open>report\<close>\<close>

text \<open>
  The values \<open>report\<close> copies out of the control structure under the lock (lines 213 to
  226). The local counters are \<open>int\<close>, the fields \<open>uint32_t\<close>.
\<close>

record drained =
  d_numErrors :: int
  d_numOptionalStuff1 :: int
  d_numOptionalStuff2 :: int
  d_latencies :: "real list"
  d_reportTime :: real

definition report_drain :: "real \<Rightarrow> HttpClientControl \<Rightarrow> HttpClientControl \<times> drained" where
  "report_drain now control =
     (let d = \<lparr> d_numErrors = sint (numErrors control),
                d_numOptionalStuff1 = sint (numOptionalStuff1 control),
                d_numOptionalStuff2 = sint (numOptionalStuff2 control),
                d_latencies = latencies control,
                d_reportTime = now \<rparr>;
          control = control\<lparr>numErrors := 0, numOptionalStuff1 := 0, numOptionalStuff2 := 0,
                            latencies := []\<rparr>
      in (control, d))"

text \<open>The arguments of the \<open>fprintf\<close> that prints the report line, named as the line names them.\<close>

record report_line =
  line_time :: real
  latency_minimum :: double
  latency_quartile1 :: double
  latency_median :: double
  latency_quartile3 :: double
  latency_maximum :: double
  latency_average :: double
  latency95 :: double
  latency99 :: double
  throughput :: double
  rr :: double
  cr :: double
  errors :: int
  line_total :: int
  openqueuing :: int

text \<open>
  \<open>report(control, lastReportTime, totalRequests)\<close>, with the clock reading taken under the
  lock as a parameter. \<open>totalRequests\<close> is an \<open>int\<close> to which a \<open>size_t\<close> is added: a 32-bit
  word, printed signed. The result is \<open>None\<close> when \<open>quartiles\<close> or \<open>percentiles\<close> read outside
  the vector.
\<close>

definition report ::
  "real \<Rightarrow> HttpClientControl \<Rightarrow> real \<Rightarrow> 32 word \<Rightarrow>
   (HttpClientControl \<times> real \<times> 32 word \<times> report_line) option" where
  "report now control lastReportTime totalRequests =
     (let (control, d) = report_drain now control;
          latencies = d_latencies d;
          reportTime = d_reportTime d;
          throughput = ddiv (Fin (real (length latencies))) (Fin (reportTime - lastReportTime));
          recommendationRate =
            ddiv (Fin (real_of_int (d_numOptionalStuff1 d))) (Fin (real (length latencies)));
          commentRate =
            ddiv (Fin (real_of_int (d_numOptionalStuff2 d))) (Fin (real (length latencies)))
      in case quartiles latencies of
           None \<Rightarrow> None
         | Some (latencies, latencyQuartiles) \<Rightarrow>
             (case percentiles latencies of
                None \<Rightarrow> None
              | Some (latencies, latencyPercentiles) \<Rightarrow>
                  let lastReportTime = reportTime;
                      totalRequests = totalRequests + of_nat (length latencies);
                      numOpenQueuing = numOpenQueuing control
                  in Some (control, lastReportTime, totalRequests,
                       \<lparr> line_time = reportTime,
                         latency_minimum = dmul (latencyQuartiles ! 0) (Fin 1000),
                         latency_quartile1 = dmul (latencyQuartiles ! 1) (Fin 1000),
                         latency_median = dmul (latencyQuartiles ! 2) (Fin 1000),
                         latency_quartile3 = dmul (latencyQuartiles ! 3) (Fin 1000),
                         latency_maximum = dmul (latencyQuartiles ! 4) (Fin 1000),
                         latency_average = dmul (average latencies) (Fin 1000),
                         latency95 = dmul (latencyPercentiles ! 0) (Fin 1000),
                         latency99 = dmul (latencyPercentiles ! 1) (Fin 1000),
                         throughput = throughput,
                         rr = dmul recommendationRate (Fin 100),
                         cr = dmul commentRate (Fin 100),
                         errors = d_numErrors d,
                         line_total = sint totalRequests,
                         openqueuing = sint numOpenQueuing \<rparr>)))"

section \<open>Live reconfiguration: \<open>processInput\<close>\<close>

text \<open>
  \<open>boost::algorithm::split\<close> with \<open>token_compress_on\<close>: a run of adjacent separators
  counts as one separator, and the input always yields at least one token (a separator at
  the start or at the end leaves an empty token there).
\<close>

definition is_any_of :: "string \<Rightarrow> char \<Rightarrow> bool" where
  "is_any_of seps c = (c \<in> set seps)"

function split :: "(char \<Rightarrow> bool) \<Rightarrow> string \<Rightarrow> string list" where
  "split p [] = [[]]"
| "split p (c # cs) =
     (if p c then [] # split p (dropWhile p cs)
      else (case split p cs of
              [] \<Rightarrow> [[c]]
            | t # ts \<Rightarrow> (c # t) # ts))"
  by pat_completeness auto
termination
  by (relation "measure (\<lambda>(p, s). length s)")
     (auto simp: length_dropWhile_le less_Suc_eq_le)

text \<open>
  \<open>atoi\<close> as the C library of the platform has it, \<open>(int) strtol(s, NULL, 10)\<close>: white
  space is skipped, an optional sign is read, then decimal digits up to the first other
  character; \<open>strtol\<close> saturates at the ends of the 64-bit \<open>long\<close>, and the conversion to
  \<open>int\<close> keeps the low 32 bits (so \<open>2147483648\<close> reads as \<open>-2147483648\<close> and \<open>4294967296\<close>
  as \<open>0\<close>). \<open>atof\<close> is a parameter of the functions below.
\<close>

definition isspace :: "char \<Rightarrow> bool" where
  "isspace c = (c \<in> set [CHR '' '', CHR 0x09, CHR 0x0A, CHR 0x0B, CHR 0x0C, CHR 0x0D])"

definition isdigit :: "char \<Rightarrow> bool" where
  "isdigit c = (48 \<le> (of_char c :: nat) \<and> (of_char c :: nat) \<le> 57)"

fun atoi_digits :: "int \<Rightarrow> string \<Rightarrow> int" where
  "atoi_digits acc [] = acc"
| "atoi_digits acc (c # cs) =
     (if isdigit c then atoi_digits (acc * 10 + (int (of_char c) - 48)) cs else acc)"

definition strtol :: "string \<Rightarrow> int" where
  "strtol s =
     (let v = (case dropWhile isspace s of
                 [] \<Rightarrow> 0
               | c # cs \<Rightarrow>
                   if c = CHR ''-'' then - atoi_digits 0 cs
                   else if c = CHR ''+'' then atoi_digits 0 cs
                   else atoi_digits 0 (c # cs))
      in max (- (2 ^ 63)) (min (2 ^ 63 - 1) v))"

definition atoi :: "string \<Rightarrow> int" where
  "atoi s = sint (word_of_int (strtol s) :: 32 word)"

text \<open>The lines the function writes to the diagnostic stream.\<close>

datatype log_line =
    CannotParse string
  | SetThinktime double
  | SetConcurrency int
  | SetOpen bool
  | UnknownKey string

text \<open>The body of the loop over the tokens of a line (lines 284 to 306).\<close>

definition parse_keyvalue ::
  "(string \<Rightarrow> double) \<Rightarrow> string \<Rightarrow> HttpClientControl \<Rightarrow> HttpClientControl \<times> log_line list" where
  "parse_keyvalue atof tok control =
     (let keyvalue = split (is_any_of ''='') tok
      in if length keyvalue \<noteq> 2 then (control, [CannotParse tok])
         else
           let key = keyvalue ! 0; val = keyvalue ! 1
           in if key = ''thinktime'' then
                (let control = control\<lparr>thinkTime := atof val\<rparr>
                 in (control, [SetThinktime (thinkTime control)]))
              else if key = ''concurrency'' then
                (let control = control\<lparr>concurrency := atoi val\<rparr>
                 in (control, [SetConcurrency (concurrency control)]))
              else if key = ''open'' then
                (let control = control\<lparr>open_flag := (atoi val \<noteq> 0)\<rparr>
                 in (control, [SetOpen (open_flag control)]))
              else (control, [UnknownKey key]))"

fun parse_tokens ::
  "(string \<Rightarrow> double) \<Rightarrow> string list \<Rightarrow> HttpClientControl \<Rightarrow> HttpClientControl \<times> log_line list" where
  "parse_tokens atof [] control = (control, [])"
| "parse_tokens atof (tok # tokens) control =
     (let (control, log1) = parse_keyvalue atof tok control;
          (control, log2) = parse_tokens atof tokens control
      in (control, log1 @ log2))"

text \<open>\<open>input.find_first_of(c, pos)\<close>; \<open>None\<close> is \<open>npos\<close>.\<close>

definition find_first_of :: "string \<Rightarrow> char \<Rightarrow> nat \<Rightarrow> nat option" where
  "find_first_of s c pos =
     (if c \<in> set (drop pos s)
      then Some (pos + length (takeWhile (\<lambda>x. x \<noteq> c) (drop pos s)))
      else None)"

text \<open>
  The loop that takes the lines off the buffer (lines 268 to 308). Every search for the
  newline starts at \<open>prevInputSize\<close>, the size the buffer had before this call read.
\<close>

function parse_lines ::
  "(string \<Rightarrow> double) \<Rightarrow> nat \<Rightarrow> string \<Rightarrow> HttpClientControl \<Rightarrow> log_line list \<Rightarrow>
   string \<times> HttpClientControl \<times> log_line list" where
  "parse_lines atof prevInputSize input control logged =
     (case find_first_of input (CHR 0x0A) prevInputSize of
        None \<Rightarrow> (input, control, logged)
      | Some newlineFound \<Rightarrow>
          parse_lines atof prevInputSize (drop (newlineFound + 1) input)
            (fst (parse_tokens atof
                    (split (is_any_of [CHR '' '', CHR 0x0A]) (take newlineFound input)) control))
            (logged @ snd (parse_tokens atof
                    (split (is_any_of [CHR '' '', CHR 0x0A]) (take newlineFound input)) control)))"
  by pat_completeness auto
termination
proof (relation "measure (\<lambda>(atof, p, input, control, logged). length input)")
  show "wf (measure (\<lambda>(atof, p, input, control, logged). length input))" by simp
next
  fix atof :: "string \<Rightarrow> double" and prevInputSize :: nat and input :: string
    and control :: HttpClientControl and logged :: "log_line list" and newlineFound :: nat
  assume "find_first_of input (CHR 0x0A) prevInputSize = Some newlineFound"
  then have "input \<noteq> []"
    by (auto simp: find_first_of_def split: if_splits)
  then show "((atof, prevInputSize, drop (newlineFound + 1) input,
                fst (parse_tokens atof
                       (split (is_any_of [CHR '' '', CHR 0x0A]) (take newlineFound input)) control),
                logged @ snd (parse_tokens atof
                       (split (is_any_of [CHR '' '', CHR 0x0A]) (take newlineFound input)) control)),
               (atof, prevInputSize, input, control, logged))
             \<in> measure (\<lambda>(atof, p, input, control, logged). length input)"
    by simp
qed

declare parse_lines.simps [simp del]

text \<open>
  \<open>processInput(input, control)\<close>; \<open>new_data\<close> is what the \<open>read\<close> loop gets from standard
  input in this call. The result is the buffer carried over, the control structure and
  the lines logged.
\<close>

definition processInput ::
  "(string \<Rightarrow> double) \<Rightarrow> string \<Rightarrow> string \<Rightarrow> HttpClientControl \<Rightarrow>
   string \<times> HttpClientControl \<times> log_line list" where
  "processInput atof new_data input control =
     (let prevInputSize = length input;
          input = input @ new_data
      in if length input = prevInputSize then (input, control, [])
         else parse_lines atof prevInputSize input control [])"

section \<open>The pool of client threads in \<open>main\<close>\<close>

text \<open>
  \<open>httpClientThreads\<close> is the list of the ids the threads were started with. The first loop
  of lines 413 to 421 starts threads, the second signals and drops the last thread while
  the size is above the requested concurrency; \<open>back()\<close> and \<open>pop_back()\<close> on an empty
  vector are undefined behaviour, the error \<open>EmptyVector\<close> of the model. The second
  component of the result lists the ids signalled, in order.
\<close>

datatype pool_error = EmptyVector

function spawn_loop :: "int \<Rightarrow> nat list \<Rightarrow> nat list" where
  "spawn_loop concurrency_now httpClientThreads =
     (if int (length httpClientThreads) < concurrency_now
      then spawn_loop concurrency_now (httpClientThreads @ [length httpClientThreads])
      else httpClientThreads)"
  by pat_completeness auto
termination
  by (relation "measure (\<lambda>(c, ts). nat (c - int (length ts)))") auto

function kill_loop :: "int \<Rightarrow> nat list \<Rightarrow> nat list \<Rightarrow> pool_error + (nat list \<times> nat list)" where
  "kill_loop concurrency_now httpClientThreads signalled =
     (if int (length httpClientThreads) > concurrency_now
      then (if httpClientThreads = [] then Inl EmptyVector
            else kill_loop concurrency_now (butlast httpClientThreads)
                   (signalled @ [last httpClientThreads]))
      else Inr (httpClientThreads, signalled))"
  by pat_completeness auto
termination
  by (relation "measure (\<lambda>(c, ts, sg). length ts)") auto

declare spawn_loop.simps [simp del] kill_loop.simps [simp del]

definition reconcile :: "HttpClientControl \<Rightarrow> nat list \<Rightarrow> pool_error + (nat list \<times> nat list)" where
  "reconcile control httpClientThreads =
     kill_loop (concurrency control) (spawn_loop (concurrency control) httpClientThreads) []"

section \<open>Client threads running together\<close>

text \<open>
  The client threads share the control structure. A thread touches it at three places of
  its loop: the atomic decrement of the guard, the think-time block (atomic increment of
  \<open>numOpenQueuing\<close>) and the block under the lock that records a result; the request itself
  touches nothing shared. A thread is therefore at the guard, granted an iteration and
  about to wait, about to send, or out of its loop, and a run of the program interleaves
  the steps of the threads in some order, the schedule. Each step takes its outside
  values from an \<open>iter_env\<close>. The history of decrements (with the value the counter got),
  sends and cancellations is kept, latest first.
\<close>

datatype pc = AtGuard | Waiting | Sending | Exited

record worker =
  w_pc :: pc
  w_lastArrivalTime :: double

datatype event = Decrement nat int | Send nat | Cancelled nat

record system =
  sys_control :: HttpClientControl
  sys_workers :: "worker list"
  sys_events :: "event list"

definition worker_step :: "nat \<Rightarrow> iter_env \<Rightarrow> system \<Rightarrow> system" where
  "worker_step i env s =
     (if i < length (sys_workers s) then
        let w = sys_workers s ! i; control = sys_control s
        in (case w_pc w of
              AtGuard \<Rightarrow>
                let (control, granted) = budget_decrement control
                in s\<lparr>sys_control := control,
                     sys_workers := (sys_workers s)[i := w\<lparr>w_pc := (if granted then Waiting else Exited)\<rparr>],
                     sys_events := Decrement i (sint (numRequestsLeft control)) # sys_events s\<rparr>
            | Waiting \<Rightarrow>
                let (control, lastArrivalTime, wait, break) = think_time env control (w_lastArrivalTime w)
                in s\<lparr>sys_control := control,
                     sys_workers := (sys_workers s)[i := \<lparr>w_pc = (if break then Exited else Sending),
                                                         w_lastArrivalTime = lastArrivalTime\<rparr>],
                     sys_events := (if break then Cancelled i # sys_events s else sys_events s)\<rparr>
            | Sending \<Rightarrow>
                s\<lparr>sys_control := record_result (request_error env) (request_optionalStuff env)
                                     (request_latency env) control,
                   sys_workers := (sys_workers s)[i := w\<lparr>w_pc := AtGuard\<rparr>],
                   sys_events := Send i # sys_events s\<rparr>
            | Exited \<Rightarrow> s)
      else s)"

fun run :: "(nat \<times> iter_env) list \<Rightarrow> system \<Rightarrow> system" where
  "run [] s = s"
| "run ((i, env) # schedule) s = run schedule (worker_step i env s)"

text \<open>
  The system when \<open>main\<close> has started its threads: one thread for each number below the
  configured concurrency, each at the guard with the clock reading it took as
  \<open>lastArrivalTime\<close>.
\<close>

definition main_start :: "HttpClientControl \<Rightarrow> (nat \<Rightarrow> real) \<Rightarrow> system" where
  "main_start control started =
     \<lparr> sys_control = control,
       sys_workers = map (\<lambda>i. \<lparr>w_pc = AtGuard, w_lastArrivalTime = Fin (started i)\<rparr>)
                         [0 ..< nat (concurrency control)],
       sys_events = [] \<rparr>"

fun is_send :: "event \<Rightarrow> bool" where
  "is_send (Send i) = True"
| "is_send e = False"

definition requests_sent :: "system \<Rightarrow> nat" where
  "requests_sent s = length (filter is_send (sys_events s))"

definition all_exited :: "system \<Rightarrow> bool" where
  "all_exited s = list_all (\<lambda>w. w_pc w = Exited) (sys_workers s)"

text \<open>No signal reaches a waiting thread: every \<open>sigtimedwait\<close> of the schedule times out.\<close>

definition no_signal :: "(nat \<times> iter_env) list \<Rightarrow> bool" where
  "no_signal schedule = list_all (\<lambda>(i, env). signo env \<le> 0) schedule"

fun event_worker :: "event \<Rightarrow> nat" where
  "event_worker (Decrement i r) = i"
| "event_worker (Send i) = i"
| "event_worker (Cancelled i) = i"

fun last_event_of :: "nat \<Rightarrow> event list \<Rightarrow> event option" where
  "last_event_of i [] = None"
| "last_event_of i (e # es) = (if event_worker e = i then Some e else last_event_of i es)"

text \<open>
  Every send of a history has, as the latest earlier event of its thread, a decrement whose
  result was not negative.
\<close>

fun granted_decrement :: "event option \<Rightarrow> bool" where
  "granted_decrement (Some (Decrement i r)) = (0 \<le> r)"
| "granted_decrement e = False"

fun sends_preceded :: "event list \<Rightarrow> bool" where
  "sends_preceded [] = True"
| "sends_preceded (Send i # es) = (granted_decrement (last_event_of i es) \<and> sends_preceded es)"
| "sends_preceded (e # es) = sends_preceded es"

text \<open>
  The changes a running program makes to the control structure, one at a time, and the
  control structures a run can reach from the one \<open>main\<close> sets up.
\<close>

datatype action =
    GuardDecrement
  | ThinkTime iter_env double
  | RecordResult bool "32 word" real
  | ReportDrain real
  | ProcessInput "string \<Rightarrow> double" string string
  | StopRunning

fun apply_action :: "action \<Rightarrow> HttpClientControl \<Rightarrow> HttpClientControl" where
  "apply_action GuardDecrement control = fst (budget_decrement control)"
| "apply_action (ThinkTime env lastArrivalTime) control = fst (think_time env control lastArrivalTime)"
| "apply_action (RecordResult error optionalStuff lastLatency) control =
     record_result error optionalStuff lastLatency control"
| "apply_action (ReportDrain now) control = fst (report_drain now control)"
| "apply_action (ProcessInput atof new_data input) control =
     fst (snd (processInput atof new_data input control))"
| "apply_action StopRunning control = control\<lparr>running := False\<rparr>"

fun apply_actions :: "action list \<Rightarrow> HttpClientControl \<Rightarrow> HttpClientControl" where
  "apply_actions [] control = control"
| "apply_actions (a # actions) control = apply_actions actions (apply_action a control)"

section \<open>Notions used in the proofs\<close>

text \<open>Two control structures that differ at most in \<open>thinkTime\<close>, \<open>concurrency\<close> and \<open>open\<close>.\<close>

definition config_only :: "HttpClientControl \<Rightarrow> HttpClientControl \<Rightarrow> bool" where
  "config_only c c' =
     (url c' = url c \<and> timeout c' = timeout c \<and> running c' = running c \<and>
      numErrors c' = numErrors c \<and> numOptionalStuff1 c' = numOptionalStuff1 c \<and>
      numOptionalStuff2 c' = numOptionalStuff2 c \<and> latencies c' = latencies c \<and>
      numOpenQueuing c' = numOpenQueuing c \<and> numRequestsLeft c' = numRequestsLeft c)"

text \<open>No interval counter is above the number of samples of the interval.\<close>

definition counters_within :: "HttpClientControl \<Rightarrow> bool" where
  "counters_within c =
     (unat (numErrors c) \<le> length (latencies c) \<and>
      unat (numOptionalStuff1 c) \<le> length (latencies c) \<and>
      unat (numOptionalStuff2 c) \<le> length (latencies c))"

text \<open>
  Counts over a history and over the threads, and the two invariants of a run: the counter
  is the budget less the decrements made, every granted decrement is accounted for by a
  send, a cancellation or a thread inside its iteration, and the threads out of their loop
  are those refused at the guard and those cancelled; a thread inside its iteration has a
  granted decrement as its latest event.
\<close>

fun is_decrement :: "event \<Rightarrow> bool" where
  "is_decrement (Decrement i r) = True"
| "is_decrement e = False"

fun is_cancelled :: "event \<Rightarrow> bool" where
  "is_cancelled (Cancelled i) = True"
| "is_cancelled e = False"

definition decrements :: "system \<Rightarrow> nat" where
  "decrements s = length (filter is_decrement (sys_events s))"

definition cancellations :: "system \<Rightarrow> nat" where
  "cancellations s = length (filter is_cancelled (sys_events s))"

definition in_iteration :: "worker \<Rightarrow> int" where
  "in_iteration w = (if w_pc w = Waiting \<or> w_pc w = Sending then 1 else 0)"

definition has_exited :: "worker \<Rightarrow> int" where
  "has_exited w = (if w_pc w = Exited then 1 else 0)"

definition budget_invariant :: "int \<Rightarrow> system \<Rightarrow> bool" where
  "budget_invariant N s =
     (sint (numRequestsLeft (sys_control s)) = N - int (decrements s) \<and>
      int (requests_sent s) + int (cancellations s) + sum_list (map in_iteration (sys_workers s))
        = min (int (decrements s)) N \<and>
      sum_list (map has_exited (sys_workers s))
        = max 0 (int (decrements s) - N) + int (cancellations s))"

definition granted_invariant :: "system \<Rightarrow> bool" where
  "granted_invariant s =
     (sends_preceded (sys_events s) \<and>
      list_all (\<lambda>i. (w_pc (sys_workers s ! i) \<noteq> Waiting \<and> w_pc (sys_workers s ! i) \<noteq> Sending) \<or>
                    granted_decrement (last_event_of i (sys_events s)))
        [0 ..< length (sys_workers s)])"

text \<open>
  A schedule that runs the program to its end with no signal: the first thread makes all
  the iterations the budget allows, then every thread in turn meets the guard.
\<close>

definition quiet_env :: iter_env where
  "quiet_env = \<lparr> sampled_interval = Fin 0, now_reading = 0, signo = 0, request_error = False,
                  request_optionalStuff = 0, request_latency = 0 \<rparr>"

definition sequential_schedule :: "nat \<Rightarrow> nat \<Rightarrow> (nat \<times> iter_env) list" where
  "sequential_schedule n c =
     concat (replicate n [(0, quiet_env), (0, quiet_env), (0, quiet_env)])
     @ map (\<lambda>i. (i, quiet_env)) [0 ..< c]"

section \<open>Properties of the order statistics\<close>

text \<open>On non-negative numbers the truncating division and remainder are the ordinary ones.\<close>

lemma sdiv_nonneg: "0 \<le> (k::int) \<Longrightarrow> k sdiv 2 = k div 2"
  by (simp add: signed_divide_int_def sgn_if)

lemma smod_nonneg: "0 \<le> (k::int) \<Longrightarrow> k smod 2 = k mod 2"
  by (simp add: signed_modulo_int_def sgn_if)

lemma deref_in_range: "i < length a \<Longrightarrow> deref a (int i) = Some (a ! i)"
  by (simp add: deref_def)

lemma median_odd:
  assumes "b + (2 * k + 1) \<le> length a"
  shows "median a (int b) (int (b + (2 * k + 1))) = Some (a ! (b + k))"
proof -
  have n: "int (b + (2 * k + 1)) - int b - 1 = 2 * int k" by simp
  have m: "(2 * int k) smod 2 = 0" by (simp add: smod_nonneg)
  have d: "(2 * int k) sdiv 2 = int k" by (simp add: sdiv_nonneg)
  have i1: "deref a (int b + int k) = Some (a ! (b + k))"
    using deref_in_range [of "b + k" a] assms by simp
  show ?thesis unfolding median_def Let_def n m d by (simp add: i1)
qed

lemma median_even:
  assumes "b + (2 * k + 2) \<le> length a"
  shows "median a (int b) (int (b + (2 * k + 2))) = Some ((a ! (b + k) + a ! (b + k + 1)) / 2)"
proof -
  have n: "int (b + (2 * k + 2)) - int b - 1 = 2 * int k + 1" by simp
  have m: "(2 * int k + 1) smod 2 = 1" by (simp add: smod_nonneg)
  have d: "(2 * int k + 1) sdiv 2 = int k" by (simp add: sdiv_nonneg)
  have i1: "deref a (int b + int k) = Some (a ! (b + k))"
    using deref_in_range [of "b + k" a] assms by simp
  have i2: "deref a (int b + int k + 1) = Some (a ! (b + k + 1))"
    using deref_in_range [of "b + k + 1" a] assms by (simp add: ac_simps)
  show ?thesis unfolding median_def Let_def n m d by (simp add: i1 i2)
qed

lemma median_in_range:
  assumes "b < e" "e \<le> length a"
  shows "median a (int b) (int e) = Some (median_spec (take (e - b) (drop b a)))"
proof (cases "even (e - b)")
  case True
  then obtain j where j: "e - b = 2 * j" unfolding dvd_def by blast
  with assms(1) have "0 < j" by simp
  then obtain k where "j = Suc k" by (cases j) simp_all
  with j assms(1) have k: "e = b + (2 * k + 2)" by simp
  have len: "length (take (e - b) (drop b a)) = 2 * k + 2" using k assms by simp
  have "median_spec (take (e - b) (drop b a)) = (a ! (b + k) + a ! (b + k + 1)) / 2"
    unfolding median_spec_def len using k assms by simp
  then show ?thesis using median_even [of b k a] assms k by simp
next
  case False
  then obtain k where k': "e - b = 2 * k + 1" by (rule oddE)
  then have k: "e = b + (2 * k + 1)" using assms by simp
  have len: "length (take (e - b) (drop b a)) = 2 * k + 1" using k assms by simp
  have "median_spec (take (e - b) (drop b a)) = a ! (b + k)"
    unfolding median_spec_def len using k assms by simp
  then show ?thesis using median_odd [of b k a] assms k by simp
qed

lemma median_suffix:
  assumes "b < length a"
  shows "median a (0 + int b) (int (length a)) = Some (median_spec (drop b a))"
  using median_in_range [of b "length a" a] assms by simp

lemma median_prefix:
  assumes "0 < e" "e \<le> length a"
  shows "median a 0 (0 + int e) = Some (median_spec (take e a))"
  using median_in_range [of 0 e a] assms by simp

lemma median_whole:
  assumes "a \<noteq> []"
  shows "median a 0 (int (length a)) = Some (median_spec a)"
  using median_in_range [of 0 "length a" a] assms by simp

text \<open>The median of a sorted, non-empty slice lies between its first and last element.\<close>

lemma median_spec_bounds:
  assumes "sorted xs" "xs \<noteq> []"
  shows "xs ! 0 \<le> median_spec xs \<and> median_spec xs \<le> xs ! (length xs - 1)"
proof -
  have le: "\<And>i j. i \<le> j \<Longrightarrow> j < length xs \<Longrightarrow> xs ! i \<le> xs ! j"
    using assms(1) by (simp add: sorted_nth_mono)
  have pos: "0 < length xs" using assms(2) by simp
  show ?thesis
  proof (cases "even (length xs)")
    case True
    then obtain j where j: "length xs = 2 * j" unfolding dvd_def by blast
    with pos have j0: "0 < j" by simp
    have a: "xs ! 0 \<le> xs ! (j - 1)" using le [of 0 "j - 1"] j j0 by simp
    have b: "xs ! (j - 1) \<le> xs ! j" using le [of "j - 1" j] j j0 by simp
    have c: "xs ! j \<le> xs ! (length xs - 1)" using le [of j "length xs - 1"] j j0 by simp
    have "median_spec xs = (xs ! (j - 1) + xs ! j) / 2"
      using j by (simp add: median_spec_def)
    then show ?thesis using a b c by simp
  next
    case False
    then have "median_spec xs = xs ! (length xs div 2)" by (simp add: median_spec_def)
    moreover have "xs ! 0 \<le> xs ! (length xs div 2)" using le [of 0 "length xs div 2"] pos by simp
    moreover have "xs ! (length xs div 2) \<le> xs ! (length xs - 1)"
      using le [of "length xs div 2" "length xs - 1"] pos by simp
    ultimately show ?thesis by simp
  qed
qed

text \<open>The median of a sorted vector lies between the elements around its middle.\<close>

lemma median_spec_middle:
  assumes "sorted xs" "2 \<le> length xs"
  shows "xs ! (length xs div 2 - 1) \<le> median_spec xs \<and> median_spec xs \<le> xs ! (length xs div 2)"
proof -
  have le: "\<And>i j. i \<le> j \<Longrightarrow> j < length xs \<Longrightarrow> xs ! i \<le> xs ! j"
    using assms(1) by (simp add: sorted_nth_mono)
  have b: "xs ! (length xs div 2 - 1) \<le> xs ! (length xs div 2)"
    using le [of "length xs div 2 - 1" "length xs div 2"] assms(2) by simp
  show ?thesis using b by (simp add: median_spec_def)
qed

lemma quartiles_value:
  assumes "2 \<le> length a"
  shows "quartiles a =
    Some (sort a,
      [Fin (sort a ! 0),
       Fin (median_spec (take (length a div 2) (sort a))),
       Fin (median_spec (sort a)),
       Fin (median_spec (drop (length a div 2) (sort a))),
       Fin (sort a ! (length a - 1))])"
proof -
  let ?s = "sort a" and ?n = "length a"
  have h: "0 < ?n div 2" "?n div 2 \<le> length ?s" "?n div 2 < length ?s"
    using assms by auto
  have ne: "?s \<noteq> []" using assms by (cases a) simp_all
  have m: "median ?s 0 (int ?n) = Some (median_spec ?s)"
    using median_whole [of ?s] ne by simp
  have q1: "median ?s 0 (0 + int (?n div 2)) = Some (median_spec (take (?n div 2) ?s))"
    using median_prefix [of "?n div 2" ?s] h by simp
  have q3: "median ?s (0 + int (?n div 2)) (int ?n) = Some (median_spec (drop (?n div 2) ?s))"
    using median_suffix [of "?n div 2" ?s] h by simp
  have "a \<noteq> []" using assms by auto
  then show ?thesis
    unfolding quartiles_def Let_def m q1 q3 by simp
qed

lemma quartiles_ordered:
  assumes "2 \<le> length a"
  shows "\<exists>s mn q1 md q3 mx.
           quartiles a = Some (s, [Fin mn, Fin q1, Fin md, Fin q3, Fin mx]) \<and>
           mn \<le> q1 \<and> q1 \<le> md \<and> md \<le> q3 \<and> q3 \<le> mx"
proof -
  let ?s = "sort a" and ?n = "length a"
  let ?lo = "take (?n div 2) ?s" and ?hi = "drop (?n div 2) ?s"
  have len: "length ?s = ?n" by simp
  have h: "0 < ?n div 2" "?n div 2 < ?n" using assms by auto
  have ne: "?s \<noteq> []" using assms by (cases a) simp_all
  have slo: "sorted ?lo" "?lo \<noteq> []" using h ne by simp_all
  have shi: "sorted ?hi" "?hi \<noteq> []" using h ne by simp_all
  have lo: "?lo ! 0 \<le> median_spec ?lo \<and> median_spec ?lo \<le> ?lo ! (length ?lo - 1)"
    by (rule median_spec_bounds [OF slo])
  have hi: "?hi ! 0 \<le> median_spec ?hi \<and> median_spec ?hi \<le> ?hi ! (length ?hi - 1)"
    by (rule median_spec_bounds [OF shi])
  have mid: "?s ! (?n div 2 - 1) \<le> median_spec ?s \<and> median_spec ?s \<le> ?s ! (?n div 2)"
    using median_spec_middle [of ?s] assms by simp
  have lo0: "?lo ! 0 = ?s ! 0" using h by simp
  have lo1: "?lo ! (length ?lo - 1) = ?s ! (?n div 2 - 1)" using h by simp
  have hi0: "?hi ! 0 = ?s ! (?n div 2)" using h by simp
  have hi1: "?hi ! (length ?hi - 1) = ?s ! (?n - 1)" using h by simp
  have "?s ! 0 \<le> median_spec ?lo \<and> median_spec ?lo \<le> median_spec ?s \<and>
        median_spec ?s \<le> median_spec ?hi \<and> median_spec ?hi \<le> ?s ! (?n - 1)"
    using lo hi mid unfolding lo0 lo1 hi0 hi1 by simp
  then show ?thesis using quartiles_value [OF assms] by blast
qed

lemma percentiles_value:
  assumes "a \<noteq> []"
  shows "percentiles a =
    Some (sort a,
      [Fin (median_spec (drop (90 * length a div 100) (sort a))),
       Fin (median_spec (drop (98 * length a div 100) (sort a)))])"
proof -
  let ?s = "sort a" and ?n = "length a"
  have pos: "0 < ?n" using assms by simp
  have "90 * ?n div 100 < ?n" "98 * ?n div 100 < ?n"
    using pos by arith+
  then have h: "90 * ?n div 100 < length ?s" "98 * ?n div 100 < length ?s"
    by simp_all
  have p0: "median ?s (0 + int (90 * ?n div 100)) (int ?n) =
              Some (median_spec (drop (90 * ?n div 100) ?s))"
    using median_suffix [OF h(1)] by simp
  have p1: "median ?s (0 + int (98 * ?n div 100)) (int ?n) =
              Some (median_spec (drop (98 * ?n div 100) ?s))"
    using median_suffix [OF h(2)] by simp
  show ?thesis
    unfolding percentiles_def Let_def p0 p1 using assms by simp
qed

lemma sort_sort: "sort (sort a) = sort (a :: real list)"
  by (simp add: sorted_sort_id)

lemma report_value:
  assumes "2 \<le> length (latencies control)"
  shows "report now control lastReportTime totalRequests =
    Some (fst (report_drain now control), now,
          totalRequests + of_nat (length (latencies control)),
          \<lparr> line_time = now,
            latency_minimum = dmul (Fin (sort (latencies control) ! 0)) (Fin 1000),
            latency_quartile1 = dmul (Fin (median_spec (take (length (latencies control) div 2) (sort (latencies control))))) (Fin 1000),
            latency_median = dmul (Fin (median_spec (sort (latencies control)))) (Fin 1000),
            latency_quartile3 = dmul (Fin (median_spec (drop (length (latencies control) div 2) (sort (latencies control))))) (Fin 1000),
            latency_maximum = dmul (Fin (sort (latencies control) ! (length (latencies control) - 1))) (Fin 1000),
            latency_average = dmul (average (sort (latencies control))) (Fin 1000),
            latency95 = dmul (Fin (median_spec (drop (90 * length (latencies control) div 100) (sort (latencies control))))) (Fin 1000),
            latency99 = dmul (Fin (median_spec (drop (98 * length (latencies control) div 100) (sort (latencies control))))) (Fin 1000),
            throughput = ddiv (Fin (real (length (latencies control)))) (Fin (now - lastReportTime)),
            rr = dmul (ddiv (Fin (real_of_int (sint (numOptionalStuff1 control)))) (Fin (real (length (latencies control))))) (Fin 100),
            cr = dmul (ddiv (Fin (real_of_int (sint (numOptionalStuff2 control)))) (Fin (real (length (latencies control))))) (Fin 100),
            errors = sint (numErrors control),
            line_total = sint (totalRequests + of_nat (length (latencies control))),
            openqueuing = sint (numOpenQueuing control) \<rparr>)"
proof -
  let ?a = "latencies control"
  have ne: "sort ?a \<noteq> []" using assms by (cases ?a) simp_all
  have q: "quartiles ?a = Some (sort ?a,
      [Fin (sort ?a ! 0),
       Fin (median_spec (take (length ?a div 2) (sort ?a))),
       Fin (median_spec (sort ?a)),
       Fin (median_spec (drop (length ?a div 2) (sort ?a))),
       Fin (sort ?a ! (length ?a - 1))])"
    by (rule quartiles_value [OF assms])
  have p: "percentiles (sort ?a) = Some (sort ?a,
      [Fin (median_spec (drop (90 * length ?a div 100) (sort ?a))),
       Fin (median_spec (drop (98 * length ?a div 100) (sort ?a)))])"
    using percentiles_value [OF ne] by (simp add: sort_sort)
  show ?thesis
    unfolding report_def report_drain_def Let_def
    by (simp add: q p)
qed

text \<open>
  Claim C9. For the samples 100, 200, 300, 400 the quartile computation returns minimum 100,
  first quartile 150, median 250, third quartile 350 and maximum 400.
\<close>

theorem quartiles_example:
  "quartiles [100, 200, 300, 400] =
     Some ([100, 200, 300, 400], [Fin 100, Fin 150, Fin 250, Fin 350, Fin 400])"
  by (simp add: quartiles_def median_def deref_def signed_divide_int_def signed_modulo_int_def)

text \<open>
  Claim C10. For a vector of exactly one sample, \<open>quartiles\<close> calls \<open>median\<close> on the empty
  lower half \<open>[0, 0)\<close>. There \<open>n - 1\<close> is \<open>-1\<close>, whose remainder is not zero, so the
  two-element branch runs and reads at the offsets 0 and 1 from \<open>begin\<close>, both outside the
  empty slice; the offset 1 is outside the vector, the read has no value, and neither has
  the first quartile.
\<close>

theorem quartiles_one_sample_out_of_range:
  assumes "length a = 1"
  shows "int (length a div 2) = 0
       \<and> ((0 + int (length a div 2)) - 0 - 1) smod 2 \<noteq> (0 :: int)
       \<and> 0 + ((0 + int (length a div 2)) - 0 - 1) sdiv 2 = (0 :: int)
       \<and> \<not> 0 + ((0 + int (length a div 2)) - 0 - 1) sdiv 2 < 0 + int (length a div 2)
       \<and> \<not> 0 + ((0 + int (length a div 2)) - 0 - 1) sdiv 2 + 1 < 0 + int (length a div 2)
       \<and> deref (sort a) (0 + ((0 + int (length a div 2)) - 0 - 1) sdiv 2 + 1) = None
       \<and> median (sort a) 0 (0 + int (length a div 2)) = None
       \<and> quartiles a = None"
proof -
  from assms obtain x where a: "a = [x]" by (cases a) simp_all
  show ?thesis unfolding a
    by (simp add: quartiles_def median_def deref_def signed_divide_int_def signed_modulo_int_def)
qed

theorem quartiles_one_sample_out_of_range_witness:
  "length [3 :: real] = 1 \<and> median (sort [3]) 0 (0 + int (length [3 :: real] div 2)) = None
     \<and> quartiles [3] = None"
  using quartiles_one_sample_out_of_range [of "[3]"] by simp

text \<open>
  Claim C1 says that for every non-empty sample vector the five values are ordered, minimum
  \<open>\<le>\<close> first quartile \<open>\<le>\<close> median \<open>\<le>\<close> third quartile \<open>\<le>\<close> maximum. For two samples or more
  this is \<open>quartiles_ordered\<close> above. For the single sample \<open>0.1\<close> the code has no five
  values to order: the first quartile reads past the end of the vector, and a report over
  an interval with this one sample has no defined result.
\<close>

theorem quartiles_single_sample_undefined:
  "quartiles [1 / 10] = None \<and> report now (control\<lparr>latencies := [1 / 10]\<rparr>) lastReportTime totalRequests = None"
  by (simp add: report_def report_drain_def quartiles_def median_def deref_def signed_divide_int_def signed_modulo_int_def)

text \<open>
  Claim C6. For every non-empty sample vector of length \<open>n\<close>, sorted by the function
  itself, the two tail statistics are the median of the suffix that starts at index
  \<open>90 * n div 100\<close> and the median of the suffix that starts at index \<open>98 * n div 100\<close>, and
  these are the values (in milliseconds) that the report line prints under the names
  \<open>latency95\<close> and \<open>latency99\<close>.
\<close>

theorem percentiles_suffix_medians:
  assumes "a \<noteq> []" "latencies control = a"
  shows "percentiles a =
           Some (sort a,
             [Fin (median_spec (drop (90 * length a div 100) (sort a))),
              Fin (median_spec (drop (98 * length a div 100) (sort a)))])
       \<and> (2 \<le> length a \<longrightarrow>
            (\<exists>control' total' line.
               report now control lastReportTime totalRequests = Some (control', now, total', line) \<and>
               latency95 line = dmul (Fin (median_spec (drop (90 * length a div 100) (sort a)))) (Fin 1000) \<and>
               latency99 line = dmul (Fin (median_spec (drop (98 * length a div 100) (sort a)))) (Fin 1000)))"
proof (intro conjI impI)
  show "percentiles a =
           Some (sort a,
             [Fin (median_spec (drop (90 * length a div 100) (sort a))),
              Fin (median_spec (drop (98 * length a div 100) (sort a)))])"
    by (rule percentiles_value [OF assms(1)])
next
  assume "2 \<le> length a"
  then have "2 \<le> length (latencies control)" using assms(2) by simp
  from report_value [OF this, of now lastReportTime totalRequests]
  show "\<exists>control' total' line.
               report now control lastReportTime totalRequests = Some (control', now, total', line) \<and>
               latency95 line = dmul (Fin (median_spec (drop (90 * length a div 100) (sort a)))) (Fin 1000) \<and>
               latency99 line = dmul (Fin (median_spec (drop (98 * length a div 100) (sort a)))) (Fin 1000)"
    using assms(2) by simp
qed

theorem percentiles_suffix_medians_witness:
  "[20, 1, 2, 3, 4, 5, 6, 7, 8, 9, 10, 11, 12, 13, 14, 15, 16, 17, 18, 19 :: real] \<noteq> []
   \<and> latencies (main_control [] 1 0 (Fin 0) False 10\<lparr>latencies := [20, 1, 2, 3, 4, 5, 6, 7, 8, 9, 10, 11, 12, 13, 14, 15, 16, 17, 18, 19]\<rparr>)
       = [20, 1, 2, 3, 4, 5, 6, 7, 8, 9, 10, 11, 12, 13, 14, 15, 16, 17, 18, 19]
   \<and> 2 \<le> length [20, 1, 2, 3, 4, 5, 6, 7, 8, 9, 10, 11, 12, 13, 14, 15, 16, 17, 18, 19 :: real]
   \<and> percentiles [20, 1, 2, 3, 4, 5, 6, 7, 8, 9, 10, 11, 12, 13, 14, 15, 16, 17, 18, 19] =
       Some ([1, 2, 3, 4, 5, 6, 7, 8, 9, 10, 11, 12, 13, 14, 15, 16, 17, 18, 19, 20], [Fin (39 / 2), Fin 20])
   \<and> (\<exists>control' total' line.
         report 7 (main_control [] 1 0 (Fin 0) False 10\<lparr>latencies := [20, 1, 2, 3, 4, 5, 6, 7, 8, 9, 10, 11, 12, 13, 14, 15, 16, 17, 18, 19]\<rparr>) 6 0
           = Some (control', 7, total', line) \<and>
         latency95 line = Fin 19500 \<and> latency99 line = Fin 20000)"
  using percentiles_suffix_medians
          [of "[20, 1, 2, 3, 4, 5, 6, 7, 8, 9, 10, 11, 12, 13, 14, 15, 16, 17, 18, 19]"
              "main_control [] 1 0 (Fin 0) False 10\<lparr>latencies := [20, 1, 2, 3, 4, 5, 6, 7, 8, 9, 10, 11, 12, 13, 14, 15, 16, 17, 18, 19]\<rparr>"
              7 6 0]
  by (simp add: median_spec_def)

section \<open>Properties of the reporter\<close>

lemma config_only_refl: "config_only c c"
  by (simp add: config_only_def)

lemma config_only_trans: "config_only a b \<Longrightarrow> config_only b c \<Longrightarrow> config_only a c"
  by (simp add: config_only_def)

lemma parse_keyvalue_config_only: "config_only c (fst (parse_keyvalue atof tok c))"
  by (simp add: parse_keyvalue_def Let_def config_only_def)

lemma parse_tokens_config_only: "config_only c (fst (parse_tokens atof toks c))"
proof (induction toks arbitrary: c)
  case Nil
  show ?case by (simp add: config_only_refl)
next
  case (Cons tok toks)
  have "config_only (fst (parse_keyvalue atof tok c))
          (fst (parse_tokens atof toks (fst (parse_keyvalue atof tok c))))"
    by (rule Cons.IH)
  with parse_keyvalue_config_only [of c atof tok]
  have "config_only c (fst (parse_tokens atof toks (fst (parse_keyvalue atof tok c))))"
    by (rule config_only_trans)
  then show ?case by (simp add: split_beta Let_def)
qed

lemma parse_lines_config_only:
  "config_only c (fst (snd (parse_lines atof p inp c lg)))"
proof (induction atof p inp c lg rule: parse_lines.induct)
  case (1 atof p inp c lg)
  show ?case
  proof (cases "find_first_of inp (CHR 0x0A) p")
    case None
    then show ?thesis by (subst parse_lines.simps) (simp add: config_only_refl)
  next
    case (Some nl)
    let ?c1 = "fst (parse_tokens atof (split (is_any_of [CHR '' '', CHR 0x0A]) (take nl inp)) c)"
    have a: "config_only c ?c1" by (rule parse_tokens_config_only)
    have b: "config_only ?c1 (fst (snd (parse_lines atof p (drop (nl + 1) inp) ?c1
               (lg @ snd (parse_tokens atof (split (is_any_of [CHR '' '', CHR 0x0A]) (take nl inp)) c)))))"
      by (rule "1.IH" [OF Some])
    from config_only_trans [OF a b] show ?thesis
      using Some by (subst parse_lines.simps) simp
  qed
qed

lemma processInput_config_only:
  "config_only c (fst (snd (processInput atof new_data inp c)))"
  by (simp add: processInput_def Let_def config_only_refl parse_lines_config_only)

lemma unat_succ_le: "unat (w + 1 :: 32 word) \<le> Suc (unat w)"
  by (metis Suc_eq_plus1 unat_plus_simple word_le_nat_alt unat_1 le_SucI le_refl unat_word_ariths(1) mod_less_eq_dividend)

lemma counters_within_record_result:
  assumes "counters_within c"
  shows "counters_within (record_result e opt lat c)"
proof -
  have "\<And>w :: 32 word. unat w \<le> length (latencies c) \<Longrightarrow> unat (w + 1) \<le> Suc (length (latencies c))"
    using unat_succ_le by (meson Suc_le_mono le_trans)
  then show ?thesis
    using assms by (simp add: counters_within_def record_result_def Let_def le_SucI)
qed

lemma counters_within_action:
  assumes "counters_within c"
  shows "counters_within (apply_action a c)"
proof (cases a)
  case GuardDecrement
  then show ?thesis using assms by (simp add: counters_within_def budget_decrement_def Let_def)
next
  case (ThinkTime env last)
  then show ?thesis using assms by (simp add: counters_within_def think_time_def Let_def)
next
  case (RecordResult e opt lat)
  then show ?thesis using assms by (simp add: counters_within_record_result)
next
  case (ReportDrain now)
  then show ?thesis by (simp add: counters_within_def report_drain_def Let_def)
next
  case (ProcessInput atof nd inp)
  then show ?thesis using assms processInput_config_only [of c atof nd inp]
    by (simp add: counters_within_def config_only_def)
next
  case StopRunning
  then show ?thesis using assms by (simp add: counters_within_def)
qed

lemma counters_within_actions:
  "counters_within c \<Longrightarrow> counters_within (apply_actions actions c)"
  by (induction actions arbitrary: c) (simp_all add: counters_within_action)

lemma counters_within_main: "counters_within (main_control u c t th opn n)"
  by (simp add: counters_within_def main_control_def)

lemma report_no_samples:
  assumes "latencies control = []" "numOptionalStuff1 control = 0" "numOptionalStuff2 control = 0"
  shows "report now control lastReportTime totalRequests =
    Some (fst (report_drain now control), now, totalRequests,
          \<lparr> line_time = now,
            latency_minimum = NaN, latency_quartile1 = NaN, latency_median = NaN,
            latency_quartile3 = NaN, latency_maximum = NaN, latency_average = NaN,
            latency95 = NaN, latency99 = NaN,
            throughput = ddiv (Fin 0) (Fin (now - lastReportTime)),
            rr = NaN, cr = NaN,
            errors = sint (numErrors control),
            line_total = sint totalRequests,
            openqueuing = sint (numOpenQueuing control) \<rparr>)"
  using assms
  by (simp add: report_def report_drain_def Let_def quartiles_def percentiles_def average_def)

text \<open>
  Claim C4. When the drained sample vector is empty, every distributional statistic of the
  report is NaN: the five quartile values, the two tail statistics, the arithmetic mean
  and the two classifier rates. The rates divide the classifier counts by the number of
  samples; in every control structure that the program reaches from its start the counts
  are zero when there is no sample, so the rates are \<open>0 / 0\<close>.
\<close>

theorem empty_report_is_NaN:
  assumes "control = apply_actions actions (main_control u c t th opn n)"
    and "latencies control = []"
  shows "quartiles (latencies control) = Some ([], [NaN, NaN, NaN, NaN, NaN])
       \<and> percentiles (latencies control) = Some ([], [NaN, NaN])
       \<and> average (latencies control) = NaN
       \<and> (\<exists>control' line.
            report now control lastReportTime totalRequests = Some (control', now, totalRequests, line) \<and>
            latency_minimum line = NaN \<and> latency_quartile1 line = NaN \<and>
            latency_median line = NaN \<and> latency_quartile3 line = NaN \<and>
            latency_maximum line = NaN \<and> latency95 line = NaN \<and> latency99 line = NaN \<and>
            latency_average line = NaN \<and> rr line = NaN \<and> cr line = NaN)"
proof -
  have "counters_within control"
    unfolding assms(1) by (rule counters_within_actions [OF counters_within_main])
  then have z: "numOptionalStuff1 control = 0" "numOptionalStuff2 control = 0"
    using assms(2) by (simp_all add: counters_within_def unat_eq_0)
  have stats: "quartiles (latencies control) = Some ([], [NaN, NaN, NaN, NaN, NaN])"
    "percentiles (latencies control) = Some ([], [NaN, NaN])"
    "average (latencies control) = NaN"
    using assms(2) by (simp_all add: quartiles_def percentiles_def average_def)
  show ?thesis
    using stats report_no_samples [OF assms(2) z, of now lastReportTime totalRequests] by simp
qed

theorem empty_report_is_NaN_witness:
  "fst (report_drain 1 (record_result True 3 (1 / 2) (main_control [] 1 0 (Fin 0) False 10)))
     = apply_actions [RecordResult True 3 (1 / 2), ReportDrain 1] (main_control [] 1 0 (Fin 0) False 10)
   \<and> latencies (fst (report_drain 1 (record_result True 3 (1 / 2) (main_control [] 1 0 (Fin 0) False 10)))) = []
   \<and> (\<exists>control' line.
        report 2 (fst (report_drain 1 (record_result True 3 (1 / 2) (main_control [] 1 0 (Fin 0) False 10)))) 1 1
          = Some (control', 2, 1, line) \<and>
        latency_minimum line = NaN \<and> latency_quartile1 line = NaN \<and>
        latency_median line = NaN \<and> latency_quartile3 line = NaN \<and>
        latency_maximum line = NaN \<and> latency95 line = NaN \<and> latency99 line = NaN \<and>
        latency_average line = NaN \<and> rr line = NaN \<and> cr line = NaN)"
proof -
  let ?c = "fst (report_drain 1 (record_result True 3 (1 / 2) (main_control [] 1 0 (Fin 0) False 10)))"
  have a: "?c = apply_actions [RecordResult True 3 (1 / 2), ReportDrain 1] (main_control [] 1 0 (Fin 0) False 10)"
    by simp
  have b: "latencies ?c = []" by (simp add: report_drain_def Let_def)
  from empty_report_is_NaN [OF a b, of 2 1 1] a b show ?thesis by blast
qed


lemma quartiles_Some_length: "quartiles a = Some (s, q) \<Longrightarrow> length s = length a"
  by (auto simp: quartiles_def Let_def split: option.splits if_splits)

lemma percentiles_Some_length: "percentiles a = Some (s, q) \<Longrightarrow> length s = length a"
  by (auto simp: percentiles_def Let_def split: option.splits if_splits)

lemma report_Some:
  assumes "report now control lastReportTime totalRequests = Some (control', t', total', line)"
  shows "control' = fst (report_drain now control) \<and> t' = now \<and>
         total' = totalRequests + of_nat (length (latencies control))"
  using assms
  by (auto simp: report_def report_drain_def Let_def
           dest!: quartiles_Some_length percentiles_Some_length
           split: option.splits prod.splits)




lemma report_one_sample: "length (latencies control) = 1 \<Longrightarrow> report now control lastReportTime totalRequests = None"
proof -
  assume "length (latencies control) = 1"
  then obtain x where "latencies control = [x]" by (cases "latencies control") simp_all
  then show ?thesis
    by (simp add: report_def report_drain_def quartiles_def median_def deref_def
                  signed_divide_int_def signed_modulo_int_def)
qed



section \<open>Properties of the think-time block\<close>

lemma think_time_open:
  assumes "dless (Fin 0) (thinkTime control)" "open_flag control"
  shows "think_time env control lastArrivalTime =
     ((if deq (dmax (dsub (dadd lastArrivalTime (sampled_interval env)) (Fin (now_reading env))) (Fin 0)) (Fin 0)
       then control\<lparr>numOpenQueuing := numOpenQueuing control + 1\<rparr> else control),
      dadd lastArrivalTime (sampled_interval env),
      Some (dmax (dsub (dadd lastArrivalTime (sampled_interval env)) (Fin (now_reading env))) (Fin 0)),
      0 < signo env)"
  using assms by (simp add: think_time_def Let_def)

lemma finite_sleep:
  "dmax (dsub (Fin x) (Fin t)) (Fin 0) = Fin (max (x - t) 0)"
  by (simp add: dmax_def dsub_def max_def)

lemma finite_due:
  "deq (Fin (max (x - t) 0)) (Fin 0) = (x \<le> t)"
  by (auto simp: max_def)

lemma numOpenQueuing_closed:
  assumes "\<not> open_flag control"
  shows "numOpenQueuing (apply_action a control) = numOpenQueuing control"
proof (cases a)
  case GuardDecrement
  then show ?thesis by (simp add: budget_decrement_def Let_def)
next
  case (ThinkTime env last)
  then show ?thesis using assms by (simp add: think_time_def Let_def)
next
  case (RecordResult e opt lat)
  then show ?thesis by (simp add: record_result_def Let_def)
next
  case (ReportDrain now)
  then show ?thesis by (simp add: report_drain_def Let_def)
next
  case (ProcessInput atof nd inp)
  then show ?thesis using processInput_config_only [of control atof nd inp]
    by (simp add: config_only_def)
next
  case StopRunning
  then show ?thesis by simp
qed

text \<open>
  Claim C7. With a positive think time in open-loop mode, an iteration sets the next arrival
  to the last arrival plus the sampled interval, waits for the maximum of the next arrival
  minus the clock reading and zero, increments \<open>numOpenQueuing\<close> exactly when that wait is
  zero (for finite values: when the arrival is already due), and takes the next arrival as
  the new last arrival whatever the clock reading and the outcome of the request are. In
  closed-loop mode no change the program makes to the control structure touches
  \<open>numOpenQueuing\<close>.
\<close>

theorem open_loop_schedule:
  "(dless (Fin 0) (thinkTime control) \<and> open_flag control \<longrightarrow>
      think_time env control lastArrivalTime =
        ((if deq (dmax (dsub (dadd lastArrivalTime (sampled_interval env)) (Fin (now_reading env))) (Fin 0)) (Fin 0)
          then control\<lparr>numOpenQueuing := numOpenQueuing control + 1\<rparr> else control),
         dadd lastArrivalTime (sampled_interval env),
         Some (dmax (dsub (dadd lastArrivalTime (sampled_interval env)) (Fin (now_reading env))) (Fin 0)),
         0 < signo env))
   \<and> (dless (Fin 0) (thinkTime control) \<and> open_flag control \<and>
        lastArrivalTime = Fin l \<and> sampled_interval env = Fin d \<longrightarrow>
        fst (snd (think_time env control lastArrivalTime)) = Fin (l + d) \<and>
        fst (snd (snd (think_time env control lastArrivalTime)))
          = Some (Fin (max (l + d - now_reading env) 0)) \<and>
        numOpenQueuing (fst (think_time env control lastArrivalTime))
          = numOpenQueuing control + (if l + d \<le> now_reading env then 1 else 0))
   \<and> fst (snd (think_time (env\<lparr>now_reading := t, request_error := e, request_optionalStuff := opt,
                                  request_latency := lat\<rparr>) control lastArrivalTime))
        = fst (snd (think_time env control lastArrivalTime))
   \<and> (\<not> open_flag control \<longrightarrow>
        numOpenQueuing (fst (think_time env control lastArrivalTime)) = numOpenQueuing control \<and>
        numOpenQueuing (apply_action a control) = numOpenQueuing control)"
proof (intro conjI impI)
  assume h: "dless (Fin 0) (thinkTime control) \<and> open_flag control"
  then show "think_time env control lastArrivalTime =
        ((if deq (dmax (dsub (dadd lastArrivalTime (sampled_interval env)) (Fin (now_reading env))) (Fin 0)) (Fin 0)
          then control\<lparr>numOpenQueuing := numOpenQueuing control + 1\<rparr> else control),
         dadd lastArrivalTime (sampled_interval env),
         Some (dmax (dsub (dadd lastArrivalTime (sampled_interval env)) (Fin (now_reading env))) (Fin 0)),
         0 < signo env)"
    by (simp add: think_time_open)
next
  assume h: "dless (Fin 0) (thinkTime control) \<and> open_flag control \<and>
        lastArrivalTime = Fin l \<and> sampled_interval env = Fin d"
  then have t: "think_time env control lastArrivalTime =
     ((if l + d \<le> now_reading env
       then control\<lparr>numOpenQueuing := numOpenQueuing control + 1\<rparr> else control),
      Fin (l + d), Some (Fin (max (l + d - now_reading env) 0)), 0 < signo env)"
    by (simp add: think_time_open finite_sleep finite_due)
  show "fst (snd (think_time env control lastArrivalTime)) = Fin (l + d)"
    by (simp add: t)
  show "fst (snd (snd (think_time env control lastArrivalTime)))
          = Some (Fin (max (l + d - now_reading env) 0))"
    by (simp add: t)
  show "numOpenQueuing (fst (think_time env control lastArrivalTime))
          = numOpenQueuing control + (if l + d \<le> now_reading env then 1 else 0)"
    by (simp add: t)
next
  show "fst (snd (think_time (env\<lparr>now_reading := t, request_error := e, request_optionalStuff := opt,
                                  request_latency := lat\<rparr>) control lastArrivalTime))
        = fst (snd (think_time env control lastArrivalTime))"
    by (simp add: think_time_def Let_def)
next
  assume "\<not> open_flag control"
  then show "numOpenQueuing (fst (think_time env control lastArrivalTime)) = numOpenQueuing control"
    by (simp add: think_time_def Let_def)
next
  assume "\<not> open_flag control"
  then show "numOpenQueuing (apply_action a control) = numOpenQueuing control"
    by (rule numOpenQueuing_closed)
qed

theorem open_loop_schedule_witness:
  "dless (Fin 0) (thinkTime (main_control [] 1 0 (Fin (1 / 10)) True 10))
   \<and> open_flag (main_control [] 1 0 (Fin (1 / 10)) True 10)
   \<and> think_time \<lparr>sampled_interval = Fin (1 / 20), now_reading = 10, signo = 0, request_error = False,
                  request_optionalStuff = 0, request_latency = 1\<rparr>
        (main_control [] 1 0 (Fin (1 / 10)) True 10) (Fin 9)
      = ((main_control [] 1 0 (Fin (1 / 10)) True 10)\<lparr>numOpenQueuing := 1\<rparr>,
         Fin (181 / 20), Some (Fin 0), False)
   \<and> \<not> open_flag (main_control [] 1 0 (Fin (1 / 10)) False 10)
   \<and> numOpenQueuing (apply_action
        (ThinkTime \<lparr>sampled_interval = Fin (1 / 20), now_reading = 10, signo = 0, request_error = False,
                    request_optionalStuff = 0, request_latency = 1\<rparr> (Fin 9))
        (main_control [] 1 0 (Fin (1 / 10)) False 10)) = 0"
  using open_loop_schedule
          [of "main_control [] 1 0 (Fin (1 / 10)) True 10"
              "\<lparr>sampled_interval = Fin (1 / 20), now_reading = 10, signo = 0, request_error = False,
                request_optionalStuff = 0, request_latency = 1\<rparr>" "Fin 9" 9 "1 / 20"]
        open_loop_schedule
          [of "main_control [] 1 0 (Fin (1 / 10)) False 10" _ _ _ _ _ _ _ _
              "ThinkTime \<lparr>sampled_interval = Fin (1 / 20), now_reading = 10, signo = 0, request_error = False,
                    request_optionalStuff = 0, request_latency = 1\<rparr> (Fin 9)"]
  by (simp add: main_control_def dmax_def dsub_def)

section \<open>Properties of the reconfiguration input and of the pool\<close>

text \<open>\<open>atoi\<close> at and beyond the ends of the range of \<open>int\<close>.\<close>

lemma atoi_examples:
  "atoi ''-1'' = - 1" "atoi '' 42x'' = 42" "atoi ''2147483647'' = 2147483647"
  "atoi ''2147483648'' = - 2147483648" "atoi ''4294967296'' = 0"
  "atoi ''99999999999999999999'' = - 1"
  by (simp_all add: atoi_def strtol_def isspace_def isdigit_def)

lemma atoi_range: "- (2 ^ 31) \<le> atoi s \<and> atoi s < 2 ^ 31"
  using sint_ge [of "word_of_int (strtol s) :: 32 word"] sint_lt [of "word_of_int (strtol s) :: 32 word"]
  by (simp add: atoi_def)

lemma parse_tokens_append:
  "parse_tokens atof (ts1 @ ts2) c =
     (fst (parse_tokens atof ts2 (fst (parse_tokens atof ts1 c))),
      snd (parse_tokens atof ts1 c) @ snd (parse_tokens atof ts2 (fst (parse_tokens atof ts1 c))))"
  by (induction ts1 arbitrary: c) (simp_all add: split_beta Let_def)

lemma parse_keyvalue_malformed:
  "length (split (is_any_of ''='') tok) \<noteq> 2 \<Longrightarrow>
     parse_keyvalue atof tok c = (c, [CannotParse tok])"
  by (simp add: parse_keyvalue_def Let_def)

lemma parse_tokens_malformed:
  "list_all (\<lambda>tok. length (split (is_any_of ''='') tok) \<noteq> 2) toks \<Longrightarrow>
     parse_tokens atof toks c = (c, map CannotParse toks)"
  by (induction toks) (simp_all add: parse_keyvalue_malformed)

lemma find_first_of_line:
  assumes "x \<notin> set line" "p \<le> length line"
  shows "find_first_of (line @ x # rest) x p = Some (length line)"
proof -
  have d: "drop p (line @ x # rest) = drop p line @ x # rest" using assms(2) by simp
  have "x \<notin> set (drop p line)" using assms(1) by (meson in_set_dropD)
  then have "takeWhile (\<lambda>y. y \<noteq> x) (drop p line @ x # rest) = drop p line"
    by (auto simp: takeWhile_tail)
  then show ?thesis using assms(2) by (simp add: find_first_of_def d)
qed

lemma parse_lines_line:
  assumes "CHR 0x0A \<notin> set line" "p \<le> length line"
  shows "parse_lines atof p (line @ CHR 0x0A # rest) c lg =
           parse_lines atof p rest
             (fst (parse_tokens atof (split (is_any_of [CHR '' '', CHR 0x0A]) line) c))
             (lg @ snd (parse_tokens atof (split (is_any_of [CHR '' '', CHR 0x0A]) line) c))"
  by (subst parse_lines.simps) (simp add: find_first_of_line [OF assms])

lemma parse_lines_logged:
  "parse_lines atof p inp c (l1 @ l2) =
     (fst (parse_lines atof p inp c l2), fst (snd (parse_lines atof p inp c l2)),
      l1 @ snd (snd (parse_lines atof p inp c l2)))"
proof (induction atof p inp c l2 rule: parse_lines.induct)
  case (1 atof p inp c l2)
  show ?case
  proof (cases "find_first_of inp (CHR 0x0A) p")
    case None
    then show ?thesis
      by (subst (1 2 3 4) parse_lines.simps) simp
  next
    case (Some nl)
    show ?thesis
      using "1.IH" [OF Some] Some
      by (subst (1 2 3 4) parse_lines.simps) simp
  qed
qed

lemma processInput_line:
  assumes "CHR 0x0A \<notin> set line"
  shows "processInput atof (line @ CHR 0x0A # rest) [] c =
     (fst (processInput atof rest [] (fst (parse_tokens atof (split (is_any_of [CHR '' '', CHR 0x0A]) line) c))),
      fst (snd (processInput atof rest [] (fst (parse_tokens atof (split (is_any_of [CHR '' '', CHR 0x0A]) line) c)))),
      snd (parse_tokens atof (split (is_any_of [CHR '' '', CHR 0x0A]) line) c) @
      snd (snd (processInput atof rest [] (fst (parse_tokens atof (split (is_any_of [CHR '' '', CHR 0x0A]) line) c)))))"
proof -
  let ?r = "parse_tokens atof (split (is_any_of [CHR '' '', CHR 0x0A]) line) c"
  have a: "processInput atof (line @ CHR 0x0A # rest) [] c = parse_lines atof 0 rest (fst ?r) (snd ?r)"
    using parse_lines_line [OF assms, of 0 atof rest c "[]"]
    by (simp add: processInput_def)
  have b: "parse_lines atof 0 rest (fst ?r) (snd ?r) =
      (fst (parse_lines atof 0 rest (fst ?r) []), fst (snd (parse_lines atof 0 rest (fst ?r) [])),
       snd ?r @ snd (snd (parse_lines atof 0 rest (fst ?r) [])))"
    using parse_lines_logged [of atof 0 rest "fst ?r" "snd ?r" "[]"] by simp
  have c: "processInput atof rest [] (fst ?r) = parse_lines atof 0 rest (fst ?r) []"
  proof (cases rest)
    case Nil
    then show ?thesis
      by (subst parse_lines.simps) (simp add: processInput_def find_first_of_def)
  next
    case (Cons x xs)
    then show ?thesis by (simp add: processInput_def)
  qed
  show ?thesis unfolding a c by (rule b)
qed

text \<open>
  A token that does not split at \<open>=\<close> into exactly two parts is logged and leaves the
  control structure as it is, and the tokens after it in the line are processed as if it
  were not there. A line of such tokens that arrives when no partial line is carried over
  is logged, and the buffer after it is processed as it would be alone. A token of two
  parts sets \<open>thinkTime\<close> from \<open>atof\<close>, \<open>concurrency\<close> from \<open>atoi\<close>, \<open>open\<close> from whether
  \<open>atoi\<close> is not zero, and any other key is logged and ignored.
\<close>

lemma malformed_token_skipped:
  "(length (split (is_any_of ''='') tok) \<noteq> 2 \<longrightarrow>
      parse_keyvalue atof tok control = (control, [CannotParse tok]) \<and>
      parse_tokens atof (before @ tok # after) control =
        (fst (parse_tokens atof after (fst (parse_tokens atof before control))),
         snd (parse_tokens atof before control) @ CannotParse tok #
         snd (parse_tokens atof after (fst (parse_tokens atof before control)))))
   \<and> (CHR 0x0A \<notin> set line \<and>
        list_all (\<lambda>tok. length (split (is_any_of ''='') tok) \<noteq> 2)
          (split (is_any_of [CHR '' '', CHR 0x0A]) line) \<longrightarrow>
        processInput atof (line @ CHR 0x0A # rest) [] control =
          (fst (processInput atof rest [] control),
           fst (snd (processInput atof rest [] control)),
           map CannotParse (split (is_any_of [CHR '' '', CHR 0x0A]) line) @
           snd (snd (processInput atof rest [] control))))
   \<and> (split (is_any_of ''='') tok = [key, val] \<longrightarrow>
        parse_keyvalue atof tok control =
          (if key = ''thinktime'' then (control\<lparr>thinkTime := atof val\<rparr>, [SetThinktime (atof val)])
           else if key = ''concurrency'' then (control\<lparr>concurrency := atoi val\<rparr>, [SetConcurrency (atoi val)])
           else if key = ''open'' then (control\<lparr>open_flag := (atoi val \<noteq> 0)\<rparr>, [SetOpen (atoi val \<noteq> 0)])
           else (control, [UnknownKey key])))
   \<and> processInput atof
        (''foo=bar=baz'' @ [CHR 0x0A] @ ''thinktime=2 concurrency=5'' @ [CHR 0x0A] @ ''bogus=7 open=1'' @ [CHR 0x0A])
        [] control =
        ([], control\<lparr>thinkTime := atof ''2'', concurrency := 5, open_flag := True\<rparr>,
         [CannotParse ''foo=bar=baz'', SetThinktime (atof ''2''), SetConcurrency 5,
          UnknownKey ''bogus'', SetOpen True])"
proof (intro conjI impI)
  assume m: "length (split (is_any_of ''='') tok) \<noteq> 2"
  then show "parse_keyvalue atof tok control = (control, [CannotParse tok])"
    by (rule parse_keyvalue_malformed)
  show "parse_tokens atof (before @ tok # after) control =
        (fst (parse_tokens atof after (fst (parse_tokens atof before control))),
         snd (parse_tokens atof before control) @ CannotParse tok #
         snd (parse_tokens atof after (fst (parse_tokens atof before control))))"
    by (simp add: parse_tokens_append [of atof before "tok # after"] parse_keyvalue_malformed [OF m]
                  split_beta)
next
  assume h: "CHR 0x0A \<notin> set line \<and>
        list_all (\<lambda>tok. length (split (is_any_of ''='') tok) \<noteq> 2)
          (split (is_any_of [CHR '' '', CHR 0x0A]) line)"
  then have t: "parse_tokens atof (split (is_any_of [CHR '' '', CHR 0x0A]) line) control =
      (control, map CannotParse (split (is_any_of [CHR '' '', CHR 0x0A]) line))"
    by (simp add: parse_tokens_malformed)
  from h have nl: "CHR 0x0A \<notin> set line" by simp
  show "processInput atof (line @ CHR 0x0A # rest) [] control =
          (fst (processInput atof rest [] control),
           fst (snd (processInput atof rest [] control)),
           map CannotParse (split (is_any_of [CHR '' '', CHR 0x0A]) line) @
           snd (snd (processInput atof rest [] control)))"
    unfolding processInput_line [OF nl] t by simp
next
  assume "split (is_any_of ''='') tok = [key, val]"
  then show "parse_keyvalue atof tok control =
          (if key = ''thinktime'' then (control\<lparr>thinkTime := atof val\<rparr>, [SetThinktime (atof val)])
           else if key = ''concurrency'' then (control\<lparr>concurrency := atoi val\<rparr>, [SetConcurrency (atoi val)])
           else if key = ''open'' then (control\<lparr>open_flag := (atoi val \<noteq> 0)\<rparr>, [SetOpen (atoi val \<noteq> 0)])
           else (control, [UnknownKey key]))"
    by (simp add: parse_keyvalue_def Let_def)
next
  show "processInput atof
        (''foo=bar=baz'' @ [CHR 0x0A] @ ''thinktime=2 concurrency=5'' @ [CHR 0x0A] @ ''bogus=7 open=1'' @ [CHR 0x0A])
        [] control =
        ([], control\<lparr>thinkTime := atof ''2'', concurrency := 5, open_flag := True\<rparr>,
         [CannotParse ''foo=bar=baz'', SetThinktime (atof ''2''), SetConcurrency 5,
          UnknownKey ''bogus'', SetOpen True])"
    by (simp add: processInput_def parse_lines.simps find_first_of_def is_any_of_def
                  parse_keyvalue_def atoi_def strtol_def isspace_def isdigit_def Let_def)
qed

lemma kill_loop_negative:
  "c < 0 \<Longrightarrow> kill_loop c threads signalled = Inl EmptyVector"
proof (induction threads arbitrary: signalled rule: rev_induct)
  case Nil
  then show ?case by (subst kill_loop.simps) simp
next
  case (snoc t threads)
  then show ?case by (subst kill_loop.simps) simp
qed

lemma spawn_loop_nonpositive: "c \<le> 0 \<Longrightarrow> spawn_loop c threads = threads"
  by (subst spawn_loop.simps) simp

lemma kill_loop_zero:
  "kill_loop 0 threads signalled = Inr ([], signalled @ rev threads)"
proof (induction threads arbitrary: signalled rule: rev_induct)
  case Nil
  then show ?case by (subst kill_loop.simps) simp
next
  case (snoc t threads)
  then show ?case by (subst kill_loop.simps) simp
qed

lemma reconcile_negative:
  "concurrency control < 0 \<Longrightarrow> reconcile control threads = Inl EmptyVector"
  by (simp add: reconcile_def kill_loop_negative)

lemma reconcile_zero:
  "concurrency control = 0 \<Longrightarrow> reconcile control threads = Inr ([], rev threads)"
  by (simp add: reconcile_def kill_loop_zero spawn_loop_nonpositive)

text \<open>
  Claim C3 says that a negative desired concurrency is accepted without validation and that
  the next reconciliation ends with no thread in the list, the shrinking stopping at zero.
  The line \<open>concurrency=-1\<close> is accepted and sets the field to \<open>-1\<close>. The shrinking loop runs
  while the size is above the concurrency: with three threads it drops all three, finds
  the size 0 still above \<open>-1\<close> and calls \<open>back()\<close> on the empty vector. With \<open>concurrency=0\<close>
  the same loop does stop at the empty list.
\<close>

theorem negative_concurrency_pops_empty_vector:
  "processInput atof (''concurrency=-1'' @ [CHR 0x0A]) [] control =
     ([], control\<lparr>concurrency := - 1\<rparr>, [SetConcurrency (- 1)])
   \<and> reconcile (control\<lparr>concurrency := - 1\<rparr>) [0, 1, 2] = Inl EmptyVector
   \<and> reconcile (control\<lparr>concurrency := 0\<rparr>) [0, 1, 2] = Inr ([], [2, 1, 0])"
  by (simp add: processInput_def parse_lines.simps find_first_of_def is_any_of_def
                parse_keyvalue_def atoi_def strtol_def isspace_def isdigit_def Let_def
                reconcile_negative reconcile_zero)

text \<open>
  Claim C8 says that after a token that does not split at \<open>=\<close> into two parts, the tokens
  and lines that follow are still parsed and applied. With the partial line \<open>foo=bar\<close>
  carried over (a call that read only \<open>foo=bar\<close> leaves it in the buffer) and \<open>=baz\<close>, a
  newline, \<open>open=1\<close> and a newline read in this call, the
  token \<open>foo=bar=baz\<close> is logged and skipped, and the complete line \<open>open=1\<close> stays in the
  buffer, not applied: the next search for a newline starts at the old offset 7, the
  length of what is left. A later call that reads nothing returns at once. The same bytes
  read at once into an empty buffer are all processed.
\<close>

theorem stale_search_offset_leaves_line:
  "processInput atof ''foo=bar'' [] control = (''foo=bar'', control, [])
   \<and> processInput atof (''=baz'' @ [CHR 0x0A] @ ''open=1'' @ [CHR 0x0A]) ''foo=bar'' control =
     (''open=1'' @ [CHR 0x0A], control, [CannotParse ''foo=bar=baz''])
   \<and> processInput atof [] (''open=1'' @ [CHR 0x0A]) control = (''open=1'' @ [CHR 0x0A], control, [])
   \<and> processInput atof (''foo=bar=baz'' @ [CHR 0x0A] @ ''open=1'' @ [CHR 0x0A]) [] control =
     ([], control\<lparr>open_flag := True\<rparr>, [CannotParse ''foo=bar=baz'', SetOpen True])"
  by (simp add: processInput_def parse_lines.simps find_first_of_def is_any_of_def
                parse_keyvalue_def atoi_def strtol_def isspace_def isdigit_def Let_def)

section \<open>Properties of the request budget\<close>

lemma sum_list_map_update:
  "i < length xs \<Longrightarrow>
     sum_list (map f (xs[i := y])) = sum_list (map f xs) - f (xs ! i) + (f y :: int)"
  by (induction xs arbitrary: i) (auto split: nat.splits)

lemma sum_has_exited_le: "sum_list (map has_exited ws) \<le> int (length ws)"
  by (induction ws) (simp_all add: has_exited_def)

lemma sum_has_exited_less:
  assumes "i < length ws" "w_pc (ws ! i) \<noteq> Exited"
  shows "sum_list (map has_exited ws) < int (length ws)"
proof -
  have "sum_list (map has_exited (ws[i := (ws ! i)\<lparr>w_pc := Exited\<rparr>]))
          = sum_list (map has_exited ws) + 1"
    using assms by (simp add: sum_list_map_update has_exited_def)
  moreover have "sum_list (map has_exited (ws[i := (ws ! i)\<lparr>w_pc := Exited\<rparr>])) \<le> int (length ws)"
    using sum_has_exited_le [of "ws[i := (ws ! i)\<lparr>w_pc := Exited\<rparr>]"] by simp
  ultimately show ?thesis by simp
qed

lemma sint_decrement:
  assumes "- (2 ^ 31) < sint (w :: 32 word)"
  shows "sint (w - 1) = sint w - 1"
proof -
  have "sint w < 2 ^ 31" using sint_lt [of w] by simp
  then have "signed_take_bit 31 (sint w - 1) = sint w - 1"
    using assms by (intro signed_take_bit_int_eq_self) simp_all
  then show ?thesis by (simp add: sint_word_ariths)
qed

lemma think_time_numRequestsLeft:
  "numRequestsLeft (fst (think_time env control arrival)) = numRequestsLeft control"
  by (simp add: think_time_def Let_def)

lemma record_result_numRequestsLeft:
  "numRequestsLeft (record_result e opt lat control) = numRequestsLeft control"
  by (simp add: record_result_def Let_def)

lemma worker_step_length: "length (sys_workers (worker_step i env s)) = length (sys_workers s)"
  by (simp add: worker_step_def Let_def split_beta split: pc.splits)

lemma run_length: "length (sys_workers (run schedule s)) = length (sys_workers s)"
  by (induction schedule arbitrary: s) (auto simp: worker_step_length)

lemma budget_invariant_step:
  assumes inv: "budget_invariant N s" and N: "0 \<le> N" "N < 2 ^ 31"
    and C: "int (length (sys_workers s)) < 2 ^ 31"
  shows "budget_invariant N (worker_step i env s)"
proof (cases "i < length (sys_workers s)")
  case False
  then show ?thesis using inv by (simp add: worker_step_def)
next
  case True
  let ?w = "sys_workers s ! i"
  let ?D = "int (decrements s)"
  from inv have a: "sint (numRequestsLeft (sys_control s)) = N - ?D"
    and b: "int (requests_sent s) + int (cancellations s) + sum_list (map in_iteration (sys_workers s))
             = min ?D N"
    and c: "sum_list (map has_exited (sys_workers s)) = max 0 (?D - N) + int (cancellations s)"
    by (simp_all add: budget_invariant_def)
  show ?thesis
  proof (cases "w_pc ?w")
    case AtGuard
    have "w_pc ?w \<noteq> Exited" using AtGuard by simp
    from sum_has_exited_less [OF True this]
    have "max 0 (?D - N) + int (cancellations s) < 2 ^ 31" using C c by simp
    then have "- (2 ^ 31) < sint (numRequestsLeft (sys_control s))" using a by simp
    then have dec: "sint (numRequestsLeft (sys_control s) - 1) = N - ?D - 1"
      by (simp add: sint_decrement a)
    have g: "in_iteration ?w = 0" "has_exited ?w = 0"
      using AtGuard by (simp_all add: in_iteration_def has_exited_def)
    show ?thesis
      using True AtGuard dec a b c g
      by (auto simp: budget_invariant_def worker_step_def budget_decrement_def Let_def
                     decrements_def cancellations_def requests_sent_def sum_list_map_update
                     in_iteration_def has_exited_def)
  next
    case Waiting
    have g: "in_iteration ?w = 1" "has_exited ?w = 0"
      using Waiting by (simp_all add: in_iteration_def has_exited_def)
    show ?thesis
      using True Waiting a b c g
      by (auto simp: budget_invariant_def worker_step_def Let_def split_beta
                     think_time_numRequestsLeft
                     decrements_def cancellations_def requests_sent_def sum_list_map_update
                     in_iteration_def has_exited_def)
  next
    case Sending
    have g: "in_iteration ?w = 1" "has_exited ?w = 0"
      using Sending by (simp_all add: in_iteration_def has_exited_def)
    show ?thesis
      using True Sending a b c g
      by (auto simp: budget_invariant_def worker_step_def Let_def
                     record_result_numRequestsLeft
                     decrements_def cancellations_def requests_sent_def sum_list_map_update
                     in_iteration_def has_exited_def)
  next
    case Exited
    then show ?thesis using inv True by (simp add: worker_step_def Let_def)
  qed
qed

lemma budget_invariant_run:
  assumes "budget_invariant N s" "0 \<le> N" "N < 2 ^ 31" "int (length (sys_workers s)) < 2 ^ 31"
  shows "budget_invariant N (run schedule s)"
  using assms
proof (induction schedule arbitrary: s)
  case Nil
  then show ?case by simp
next
  case (Cons a schedule)
  obtain i env where a: "a = (i, env)" by (cases a)
  have "budget_invariant N (worker_step i env s)"
    using Cons.prems by (intro budget_invariant_step) simp_all
  moreover have "int (length (sys_workers (worker_step i env s))) < 2 ^ 31"
    using Cons.prems by (simp add: worker_step_length)
  ultimately show ?case using Cons.IH Cons.prems a by simp
qed

lemma sum_list_map_zero: "(\<And>x. x \<in> set xs \<Longrightarrow> f x = (0::int)) \<Longrightarrow> sum_list (map f xs) = 0"
  by (induction xs) simp_all

lemma budget_invariant_start:
  assumes "0 \<le> N" "N < 2 ^ 31"
  shows "budget_invariant N (main_start (main_control u c t th opn N) started)"
proof -
  have "signed_take_bit 31 N = N"
    using assms by (intro signed_take_bit_int_eq_self) simp_all
  then have "sint (word_of_int N :: 32 word) = N" by (simp add: signed_of_int)
  then show ?thesis
    using assms
    by (simp add: budget_invariant_def main_start_def main_control_def decrements_def
                  cancellations_def requests_sent_def in_iteration_def has_exited_def
                  sum_list_map_zero comp_def)
qed

lemma think_time_break: "snd (snd (snd (think_time env control arrival))) \<Longrightarrow> 0 < signo env"
  by (simp add: think_time_def Let_def split: if_splits)

lemma cancellations_step:
  assumes "signo env \<le> 0"
  shows "cancellations (worker_step i env s) = cancellations s"
proof -
  have "\<not> snd (snd (snd (think_time env (sys_control s) (w_lastArrivalTime (sys_workers s ! i)))))"
    using think_time_break assms by fastforce
  then show ?thesis
    by (simp add: worker_step_def Let_def split_beta cancellations_def budget_decrement_def
             split: pc.splits)
qed

lemma cancellations_run:
  "no_signal schedule \<Longrightarrow> cancellations (run schedule s) = cancellations s"
proof (induction schedule arbitrary: s)
  case Nil
  then show ?case by simp
next
  case (Cons a schedule)
  obtain i env where a: "a = (i, env)" by (cases a)
  from Cons.prems a have "signo env \<le> 0" "no_signal schedule" by (simp_all add: no_signal_def)
  then show ?case using Cons.IH a by (simp add: cancellations_step)
qed

lemma granted_invariant_iff:
  "granted_invariant s \<longleftrightarrow>
     sends_preceded (sys_events s) \<and>
     (\<forall>i < length (sys_workers s).
        w_pc (sys_workers s ! i) = Waiting \<or> w_pc (sys_workers s ! i) = Sending \<longrightarrow>
        granted_decrement (last_event_of i (sys_events s)))"
  by (auto simp: granted_invariant_def list_all_iff)

lemma granted_invariant_step:
  assumes inv: "granted_invariant s"
  shows "granted_invariant (worker_step i env s)"
proof (cases "i < length (sys_workers s)")
  case False
  then show ?thesis using inv by (simp add: worker_step_def)
next
  case True
  let ?w = "sys_workers s ! i"
  from inv have sp: "sends_preceded (sys_events s)"
    and gr: "\<And>j. j < length (sys_workers s) \<Longrightarrow>
               w_pc (sys_workers s ! j) = Waiting \<or> w_pc (sys_workers s ! j) = Sending \<Longrightarrow>
               granted_decrement (last_event_of j (sys_events s))"
    by (auto simp: granted_invariant_iff)
  show ?thesis
  proof (cases "w_pc ?w")
    case AtGuard
    show ?thesis
      unfolding granted_invariant_iff
      using True AtGuard sp gr
      by (auto simp: worker_step_def budget_decrement_def Let_def nth_list_update)
  next
    case Waiting
    show ?thesis
      unfolding granted_invariant_iff
      using True Waiting sp gr
      by (auto simp: worker_step_def Let_def split_beta nth_list_update)
  next
    case Sending
    have "granted_decrement (last_event_of i (sys_events s))"
      using gr [OF True] Sending by simp
    then show ?thesis
      unfolding granted_invariant_iff
      using True Sending sp gr
      by (auto simp: worker_step_def Let_def nth_list_update)
  next
    case Exited
    then show ?thesis using inv True by (simp add: worker_step_def Let_def)
  qed
qed

lemma granted_invariant_run: "granted_invariant s \<Longrightarrow> granted_invariant (run schedule s)"
proof (induction schedule arbitrary: s)
  case Nil
  then show ?case by simp
next
  case (Cons a schedule)
  obtain i env where a: "a = (i, env)" by (cases a)
  show ?case using Cons a by (simp add: granted_invariant_step)
qed

lemma granted_invariant_start: "granted_invariant (main_start control started)"
  by (simp add: granted_invariant_iff main_start_def)

lemma decrements_step: "decrements s \<le> decrements (worker_step i env s)"
  by (simp add: worker_step_def Let_def split_beta decrements_def split: pc.splits)

lemma sum_list_map_one:
  "(\<And>x. x \<in> set xs \<Longrightarrow> f x = (1::int)) \<Longrightarrow> sum_list (map f xs) = int (length xs)"
  by (induction xs) simp_all

lemma all_exited_sums:
  assumes "all_exited s"
  shows "sum_list (map has_exited (sys_workers s)) = int (length (sys_workers s))"
    and "sum_list (map in_iteration (sys_workers s)) = 0"
proof -
  have e: "\<And>w. w \<in> set (sys_workers s) \<Longrightarrow> w_pc w = Exited"
    using assms by (simp add: all_exited_def list_all_iff)
  show "sum_list (map has_exited (sys_workers s)) = int (length (sys_workers s))"
    using e by (intro sum_list_map_one) (simp add: has_exited_def)
  show "sum_list (map in_iteration (sys_workers s)) = 0"
    using e by (intro sum_list_map_zero) (simp add: in_iteration_def)
qed

lemma requests_sent_exact:
  assumes "0 \<le> N" "N < 2 ^ 31" "1 \<le> c" "c < 2 ^ 31" "no_signal schedule"
    and "s = run schedule (main_start (main_control u c t th opn N) started)"
    and "all_exited s"
  shows "int (requests_sent s) = N"
proof -
  let ?s0 = "main_start (main_control u c t th opn N) started"
  have len0: "int (length (sys_workers ?s0)) = c"
    using assms(3) by (simp add: main_start_def main_control_def)
  have inv: "budget_invariant N s"
    unfolding assms(6)
    using assms(1,2,4) len0 by (intro budget_invariant_run budget_invariant_start) simp_all
  have k: "cancellations s = 0"
    unfolding assms(6) using cancellations_run [OF assms(5), of ?s0]
    by (simp add: cancellations_def main_start_def)
  have len: "int (length (sys_workers s)) = c"
    unfolding assms(6) using len0 by (simp add: run_length)
  from inv have b: "int (requests_sent s) + int (cancellations s)
                     + sum_list (map in_iteration (sys_workers s)) = min (int (decrements s)) N"
    and e: "sum_list (map has_exited (sys_workers s))
             = max 0 (int (decrements s) - N) + int (cancellations s)"
    by (simp_all add: budget_invariant_def)
  from e all_exited_sums(1) [OF assms(7)] len k
  have "max 0 (int (decrements s) - N) = c" by simp
  with assms(3) have "N < int (decrements s)" by simp
  with b all_exited_sums(2) [OF assms(7)] k show ?thesis by simp
qed

lemma sum_in_iteration_nonneg: "0 \<le> sum_list (map in_iteration ws)"
  by (induction ws) (simp_all add: in_iteration_def)

lemma requests_sent_le:
  assumes "0 \<le> N" "N < 2 ^ 31" "1 \<le> c" "c < 2 ^ 31"
    and "s = run schedule (main_start (main_control u c t th opn N) started)"
  shows "int (requests_sent s) \<le> N"
proof -
  let ?s0 = "main_start (main_control u c t th opn N) started"
  have len0: "int (length (sys_workers ?s0)) = c"
    using assms(3) by (simp add: main_start_def main_control_def)
  have inv: "budget_invariant N s"
    unfolding assms(5)
    using assms(1,2,4) len0 by (intro budget_invariant_run budget_invariant_start) simp_all
  then have "int (requests_sent s) + int (cancellations s)
               + sum_list (map in_iteration (sys_workers s)) = min (int (decrements s)) N"
    by (simp add: budget_invariant_def)
  with sum_in_iteration_nonneg [of "sys_workers s"] show ?thesis by simp
qed

lemma run_append: "run (a @ b) s = run b (run a s)"
  by (induction a arbitrary: s) auto

lemma step_guard:
  assumes "i < length (sys_workers s)" "w_pc (sys_workers s ! i) = AtGuard"
    and "- (2 ^ 31) < sint (numRequestsLeft (sys_control s))"
  shows "map w_pc (sys_workers (worker_step i env s)) =
           (map w_pc (sys_workers s))
             [i := (if 1 \<le> sint (numRequestsLeft (sys_control s)) then Waiting else Exited)]"
    and "sint (numRequestsLeft (sys_control (worker_step i env s)))
           = sint (numRequestsLeft (sys_control s)) - 1"
  using assms sint_decrement [OF assms(3)]
  by (simp_all add: worker_step_def budget_decrement_def Let_def map_update)

lemma step_wait:
  assumes "i < length (sys_workers s)" "w_pc (sys_workers s ! i) = Waiting" "signo env \<le> 0"
  shows "map w_pc (sys_workers (worker_step i env s)) = (map w_pc (sys_workers s))[i := Sending]"
    and "numRequestsLeft (sys_control (worker_step i env s)) = numRequestsLeft (sys_control s)"
proof -
  have nb: "\<not> snd (snd (snd (think_time env (sys_control s) (w_lastArrivalTime (sys_workers s ! i)))))"
    using think_time_break assms(3) by fastforce
  show "map w_pc (sys_workers (worker_step i env s)) = (map w_pc (sys_workers s))[i := Sending]"
    using assms nb by (simp add: worker_step_def Let_def split_beta map_update)
  show "numRequestsLeft (sys_control (worker_step i env s)) = numRequestsLeft (sys_control s)"
    using assms by (simp add: worker_step_def Let_def split_beta think_time_numRequestsLeft)
qed

lemma step_send:
  assumes "i < length (sys_workers s)" "w_pc (sys_workers s ! i) = Sending"
  shows "map w_pc (sys_workers (worker_step i env s)) = (map w_pc (sys_workers s))[i := AtGuard]"
    and "numRequestsLeft (sys_control (worker_step i env s)) = numRequestsLeft (sys_control s)"
  using assms
  by (simp_all add: worker_step_def Let_def map_update record_result_numRequestsLeft)

lemma pc_nth: "i < length (sys_workers s) \<Longrightarrow> w_pc (sys_workers s ! i) = map w_pc (sys_workers s) ! i"
  by simp

lemma one_iteration:
  assumes "0 < length (sys_workers s)" "w_pc (sys_workers s ! 0) = AtGuard"
    and "1 \<le> sint (numRequestsLeft (sys_control s))"
  shows "map w_pc (sys_workers (run [(0, quiet_env), (0, quiet_env), (0, quiet_env)] s))
           = map w_pc (sys_workers s)"
    and "sint (numRequestsLeft (sys_control (run [(0, quiet_env), (0, quiet_env), (0, quiet_env)] s)))
           = sint (numRequestsLeft (sys_control s)) - 1"
proof -
  let ?s1 = "worker_step 0 quiet_env s"
  let ?s2 = "worker_step 0 quiet_env ?s1"
  let ?s3 = "worker_step 0 quiet_env ?s2"
  have b: "- (2 ^ 31) < sint (numRequestsLeft (sys_control s))" using assms(3) by simp
  have p1: "map w_pc (sys_workers ?s1) = (map w_pc (sys_workers s))[0 := Waiting]"
    and c1: "sint (numRequestsLeft (sys_control ?s1)) = sint (numRequestsLeft (sys_control s)) - 1"
    using step_guard [OF assms(1,2) b, of quiet_env] assms(3) by simp_all
  have l1: "0 < length (sys_workers ?s1)" using assms(1) by (simp add: worker_step_length)
  have w1: "w_pc (sys_workers ?s1 ! 0) = Waiting"
    using pc_nth [OF l1] p1 assms(1) by simp
  have q: "signo quiet_env \<le> 0" by (simp add: quiet_env_def)
  have p2: "map w_pc (sys_workers ?s2) = (map w_pc (sys_workers s))[0 := Sending]"
    and c2: "numRequestsLeft (sys_control ?s2) = numRequestsLeft (sys_control ?s1)"
    using step_wait [OF l1 w1 q] p1 by simp_all
  have l2: "0 < length (sys_workers ?s2)" using l1 by (simp add: worker_step_length)
  have w2: "w_pc (sys_workers ?s2 ! 0) = Sending"
    using pc_nth [OF l2] p2 assms(1) by simp
  have p3: "map w_pc (sys_workers ?s3) = (map w_pc (sys_workers s))[0 := AtGuard]"
    and c3: "numRequestsLeft (sys_control ?s3) = numRequestsLeft (sys_control ?s2)"
    using step_send [OF l2 w2, of quiet_env] p2 by simp_all
  have "(map w_pc (sys_workers s))[0 := AtGuard] = map w_pc (sys_workers s)"
    using assms(1,2) by (metis list_update_id map_update)
  with p3 show "map w_pc (sys_workers (run [(0, quiet_env), (0, quiet_env), (0, quiet_env)] s))
           = map w_pc (sys_workers s)" by simp
  show "sint (numRequestsLeft (sys_control (run [(0, quiet_env), (0, quiet_env), (0, quiet_env)] s)))
           = sint (numRequestsLeft (sys_control s)) - 1"
    using c1 c2 c3 by simp
qed

lemma iterations:
  assumes "0 < length (sys_workers s)" "w_pc (sys_workers s ! 0) = AtGuard"
    and "int n \<le> sint (numRequestsLeft (sys_control s))"
  shows "map w_pc (sys_workers (run (concat (replicate n [(0, quiet_env), (0, quiet_env), (0, quiet_env)])) s))
           = map w_pc (sys_workers s)
       \<and> sint (numRequestsLeft (sys_control
             (run (concat (replicate n [(0, quiet_env), (0, quiet_env), (0, quiet_env)])) s)))
           = sint (numRequestsLeft (sys_control s)) - int n"
  using assms
proof (induction n arbitrary: s)
  case 0
  then show ?case by simp
next
  case (Suc n)
  let ?s' = "run [(0, quiet_env), (0, quiet_env), (0, quiet_env)] s"
  have k: "1 \<le> sint (numRequestsLeft (sys_control s))" using Suc.prems(3) by simp
  note it = one_iteration [OF Suc.prems(1,2) k]
  have l: "0 < length (sys_workers ?s')" using Suc.prems(1) by (simp add: worker_step_length)
  have g: "w_pc (sys_workers ?s' ! 0) = AtGuard"
    using pc_nth [OF l] it(1) Suc.prems(1,2) by simp
  have b: "int n \<le> sint (numRequestsLeft (sys_control ?s'))" using it(2) Suc.prems(3) by simp
  from Suc.IH [OF l g b] it
  have "map w_pc (sys_workers (run (concat (replicate n [(0, quiet_env), (0, quiet_env), (0, quiet_env)])) ?s'))
           = map w_pc (sys_workers s)
       \<and> sint (numRequestsLeft (sys_control
             (run (concat (replicate n [(0, quiet_env), (0, quiet_env), (0, quiet_env)])) ?s')))
           = sint (numRequestsLeft (sys_control s)) - int (Suc n)"
    by simp
  then show ?case by simp
qed

lemma exits:
  assumes "m \<le> length (sys_workers s)"
    and "\<forall>j < length (sys_workers s). w_pc (sys_workers s ! j) = AtGuard"
    and "sint (numRequestsLeft (sys_control s)) \<le> 0"
    and "- (2 ^ 31) < sint (numRequestsLeft (sys_control s)) - int m"
  shows "(\<forall>j < length (sys_workers s).
            w_pc (sys_workers (run (map (\<lambda>i. (i, quiet_env)) [0 ..< m]) s) ! j)
              = (if j < m then Exited else AtGuard))
       \<and> sint (numRequestsLeft (sys_control (run (map (\<lambda>i. (i, quiet_env)) [0 ..< m]) s)))
           = sint (numRequestsLeft (sys_control s)) - int m"
  using assms
proof (induction m)
  case 0
  then show ?case by simp
next
  case (Suc m)
  let ?s' = "run (map (\<lambda>i. (i, quiet_env)) [0 ..< m]) s"
  have ih: "(\<forall>j < length (sys_workers s).
            w_pc (sys_workers ?s' ! j) = (if j < m then Exited else AtGuard))"
    and c: "sint (numRequestsLeft (sys_control ?s')) = sint (numRequestsLeft (sys_control s)) - int m"
    using Suc.IH Suc.prems by simp_all
  have len: "length (sys_workers ?s') = length (sys_workers s)" by (simp add: run_length)
  have m: "m < length (sys_workers ?s')" using Suc.prems(1) len by simp
  have g: "w_pc (sys_workers ?s' ! m) = AtGuard" using ih m len by simp
  have b: "- (2 ^ 31) < sint (numRequestsLeft (sys_control ?s'))" using c Suc.prems(4) by simp
  have neg: "\<not> 1 \<le> sint (numRequestsLeft (sys_control ?s'))" using c Suc.prems(3) by simp
  note st = step_guard [OF m g b, of quiet_env]
  have r: "run (map (\<lambda>i. (i, quiet_env)) [0 ..< Suc m]) s = worker_step m quiet_env ?s'"
    by (simp add: run_append)
  have p: "map w_pc (sys_workers (worker_step m quiet_env ?s')) = (map w_pc (sys_workers ?s'))[m := Exited]"
    using st(1) neg by simp
  have "\<forall>j < length (sys_workers s).
            w_pc (sys_workers (worker_step m quiet_env ?s') ! j)
              = (if j < Suc m then Exited else AtGuard)"
  proof (intro allI impI)
    fix j assume j: "j < length (sys_workers s)"
    then have jl: "j < length (sys_workers (worker_step m quiet_env ?s'))"
      by (simp add: worker_step_length len)
    have "w_pc (sys_workers (worker_step m quiet_env ?s') ! j)
            = (map w_pc (sys_workers ?s'))[m := Exited] ! j"
      using pc_nth [OF jl] p by simp
    also have "\<dots> = (if j = m then Exited else w_pc (sys_workers ?s' ! j))"
      using j len by (simp add: nth_list_update)
    also have "\<dots> = (if j < Suc m then Exited else AtGuard)"
      using ih j by (auto simp: less_Suc_eq)
    finally show "w_pc (sys_workers (worker_step m quiet_env ?s') ! j)
              = (if j < Suc m then Exited else AtGuard)" .
  qed
  moreover have "sint (numRequestsLeft (sys_control (worker_step m quiet_env ?s')))
           = sint (numRequestsLeft (sys_control s)) - int (Suc m)"
    using st(2) c by simp
  ultimately show ?case unfolding r by simp
qed

lemma no_signal_sequential: "no_signal (sequential_schedule n c)"
  by (simp add: no_signal_def sequential_schedule_def list_all_iff quiet_env_def)

lemma complete_run_exists:
  assumes "0 \<le> N" "N < 2 ^ 31" "1 \<le> c" "c < 2 ^ 31"
  shows "no_signal (sequential_schedule (nat N) (nat c))
       \<and> all_exited (run (sequential_schedule (nat N) (nat c))
                          (main_start (main_control u c t th opn N) started))"
proof -
  let ?s0 = "main_start (main_control u c t th opn N) started"
  let ?it = "concat (replicate (nat N) [(0, quiet_env), (0, quiet_env), (0, quiet_env)])"
  let ?s1 = "run ?it ?s0"
  have "signed_take_bit 31 N = N"
    using assms by (intro signed_take_bit_int_eq_self) simp_all
  then have n0: "sint (numRequestsLeft (sys_control ?s0)) = N"
    by (simp add: main_start_def main_control_def signed_of_int)
  have len0: "length (sys_workers ?s0) = nat c"
    by (simp add: main_start_def main_control_def)
  have pos: "0 < length (sys_workers ?s0)" using assms(3) len0 by simp
  have all0: "\<forall>j < length (sys_workers ?s0). w_pc (sys_workers ?s0 ! j) = AtGuard"
    by (simp add: main_start_def)
  then have g0: "w_pc (sys_workers ?s0 ! 0) = AtGuard" using pos by blast
  have le: "int (nat N) \<le> sint (numRequestsLeft (sys_control ?s0))" using n0 assms(1) by simp
  from iterations [OF pos g0 le]
  have p1: "map w_pc (sys_workers ?s1) = map w_pc (sys_workers ?s0)"
    and c1: "sint (numRequestsLeft (sys_control ?s1)) = 0"
    using n0 assms(1) by simp_all
  have len1: "length (sys_workers ?s1) = nat c" using len0 by (simp add: run_length)
  have all1: "\<forall>j < length (sys_workers ?s1). w_pc (sys_workers ?s1 ! j) = AtGuard"
  proof (intro allI impI)
    fix j assume j: "j < length (sys_workers ?s1)"
    then have j0: "j < length (sys_workers ?s0)" using len0 len1 by simp
    have "w_pc (sys_workers ?s1 ! j) = map w_pc (sys_workers ?s1) ! j" using pc_nth [OF j] .
    also have "\<dots> = w_pc (sys_workers ?s0 ! j)" unfolding p1 using j0 by simp
    finally show "w_pc (sys_workers ?s1 ! j) = AtGuard" using all0 j0 by simp
  qed
  have m: "nat c \<le> length (sys_workers ?s1)" using len1 by simp
  have z: "sint (numRequestsLeft (sys_control ?s1)) \<le> 0" using c1 by simp
  have b: "- (2 ^ 31) < sint (numRequestsLeft (sys_control ?s1)) - int (nat c)"
    using c1 assms(3,4) by simp
  from exits [OF m all1 z b]
  have fin: "\<forall>j < length (sys_workers ?s1).
            w_pc (sys_workers (run (map (\<lambda>i. (i, quiet_env)) [0 ..< nat c]) ?s1) ! j) = Exited"
    using len1 by simp
  let ?s2 = "run (map (\<lambda>i. (i, quiet_env)) [0 ..< nat c]) ?s1"
  have r: "run (sequential_schedule (nat N) (nat c)) ?s0 = ?s2"
    by (simp add: sequential_schedule_def run_append)
  have len2: "length (sys_workers ?s2) = length (sys_workers ?s1)" by (simp add: run_length)
  have "all_exited ?s2"
    unfolding all_exited_def list_all_length using fin len2 by simp
  then show ?thesis using no_signal_sequential r by simp
qed

text \<open>
  Claim C2. With a request budget \<open>N\<close> (not negative) and \<open>C\<close> client threads (at least
  one), both in the range of \<open>int\<close>, in a run where no signal reaches a waiting thread:
  when the program has run until the budget is exhausted and every thread has left its
  loop, at least \<open>N\<close> requests have been sent; at every moment of the run at most
  \<open>N + (C - 1)\<close> have been sent; no step of a thread increases the counter; and every send
  has, as the latest earlier event of its thread, a decrement whose result was not
  negative. Such runs to the end exist: the sequential schedule is one.
\<close>

theorem budget_bounds:
  assumes "0 \<le> N" "N < 2 ^ 31" "1 \<le> c" "c < 2 ^ 31" "no_signal schedule"
    and "s = run schedule (main_start (main_control u c t th opn N) started)"
  shows "(all_exited s \<longrightarrow> N \<le> int (requests_sent s))
       \<and> int (requests_sent s) \<le> N + (c - 1)
       \<and> sint (numRequestsLeft (sys_control (worker_step i env s)))
           \<le> sint (numRequestsLeft (sys_control s))
       \<and> sends_preceded (sys_events s)
       \<and> no_signal (sequential_schedule (nat N) (nat c))
       \<and> all_exited (run (sequential_schedule (nat N) (nat c))
                          (main_start (main_control u c t th opn N) started))"
proof (intro conjI impI)
  assume "all_exited s"
  from requests_sent_exact [OF assms this] show "N \<le> int (requests_sent s)" by simp
next
  from requests_sent_le [OF assms(1-4) assms(6)] assms(3)
  show "int (requests_sent s) \<le> N + (c - 1)" by simp
next
  let ?s0 = "main_start (main_control u c t th opn N) started"
  have len0: "int (length (sys_workers ?s0)) = c"
    using assms(3) by (simp add: main_start_def main_control_def)
  have inv: "budget_invariant N s"
    unfolding assms(6)
    using assms(1,2,4) len0 by (intro budget_invariant_run budget_invariant_start) simp_all
  have "int (length (sys_workers s)) < 2 ^ 31"
    unfolding assms(6) using len0 assms(4) by (simp add: run_length)
  with inv assms(1,2) have "budget_invariant N (worker_step i env s)"
    by (intro budget_invariant_step)
  with inv decrements_step [of s i env]
  show "sint (numRequestsLeft (sys_control (worker_step i env s)))
           \<le> sint (numRequestsLeft (sys_control s))"
    by (simp add: budget_invariant_def)
next
  have "granted_invariant s"
    unfolding assms(6) by (intro granted_invariant_run granted_invariant_start)
  then show "sends_preceded (sys_events s)" by (simp add: granted_invariant_iff)
next
  from complete_run_exists [OF assms(1-4)]
  show "no_signal (sequential_schedule (nat N) (nat c))"
    and "all_exited (run (sequential_schedule (nat N) (nat c))
                          (main_start (main_control u c t th opn N) started))"
    by simp_all
qed

theorem budget_bounds_witness:
  "(0 :: int) \<le> 1 \<and> (1 :: int) < 2 ^ 31 \<and> (1 :: int) \<le> 2 \<and> (2 :: int) < 2 ^ 31
   \<and> no_signal
        (map (\<lambda>i. (i, \<lparr>sampled_interval = Fin 0, now_reading = 0, signo = 0, request_error = False,
                         request_optionalStuff = 0, request_latency = 1\<rparr>)) [0, 1, 0, 0, 0])
   \<and> all_exited
        (run (map (\<lambda>i. (i, \<lparr>sampled_interval = Fin 0, now_reading = 0, signo = 0, request_error = False,
                              request_optionalStuff = 0, request_latency = 1\<rparr>)) [0, 1, 0, 0, 0])
             (main_start (main_control [] 2 0 (Fin 0) False 1) (\<lambda>i. 0)))
   \<and> 1 \<le> int (requests_sent
        (run (map (\<lambda>i. (i, \<lparr>sampled_interval = Fin 0, now_reading = 0, signo = 0, request_error = False,
                              request_optionalStuff = 0, request_latency = 1\<rparr>)) [0, 1, 0, 0, 0])
             (main_start (main_control [] 2 0 (Fin 0) False 1) (\<lambda>i. 0))))
   \<and> int (requests_sent
        (run (map (\<lambda>i. (i, \<lparr>sampled_interval = Fin 0, now_reading = 0, signo = 0, request_error = False,
                              request_optionalStuff = 0, request_latency = 1\<rparr>)) [0, 1, 0, 0, 0])
             (main_start (main_control [] 2 0 (Fin 0) False 1) (\<lambda>i. 0)))) \<le> 1 + (2 - 1)
   \<and> sends_preceded (sys_events
        (run (map (\<lambda>i. (i, \<lparr>sampled_interval = Fin 0, now_reading = 0, signo = 0, request_error = False,
                              request_optionalStuff = 0, request_latency = 1\<rparr>)) [0, 1, 0, 0, 0])
             (main_start (main_control [] 2 0 (Fin 0) False 1) (\<lambda>i. 0))))"
proof -
  let ?sched = "map (\<lambda>i. (i, \<lparr>sampled_interval = Fin 0, now_reading = 0, signo = 0, request_error = False,
                              request_optionalStuff = 0, request_latency = 1\<rparr>)) [0, 1, 0, 0, 0 :: nat]"
  let ?s = "run ?sched (main_start (main_control [] 2 0 (Fin 0) False 1) (\<lambda>i. 0))"
  have n: "(0 :: int) \<le> 1" "(1 :: int) < 2 ^ 31" "(1 :: int) \<le> 2" "(2 :: int) < 2 ^ 31"
    by simp_all
  have q: "no_signal ?sched" by code_simp
  have x: "all_exited ?s" by code_simp
  from budget_bounds [OF n q refl, of "[]" 0 "Fin 0" False "\<lambda>i. 0"] x
  have "1 \<le> int (requests_sent ?s)" "int (requests_sent ?s) \<le> 1 + (2 - 1)"
    "sends_preceded (sys_events ?s)"
    by blast+
  with n q x show ?thesis by blast
qed

end
